theory Spec2Isabelle
  imports Main
begin

section \<open>Values, errors and completions\<close>

text \<open>
  The schema document of \<^verbatim>\<open>src/Restify.js\<close> is JSON data. The attribute values of a
  field descriptor are modelled by \<open>jsval\<close>: an absent attribute reads as \<open>JUndefined\<close>,
  as a property read does in JavaScript. Numbers and nested objects as attribute values
  are outside the embedding (the documented configuration uses strings and booleans).
\<close>

datatype jsval = JUndefined | JNull | JBool bool | JStr string

text \<open>
  What the code throws: \<open>Error msg\<close> is \<^verbatim>\<open>new Error(msg)\<close> (thrown by \<^verbatim>\<open>invRelation\<close>),
  \<open>TypeError\<close> is the runtime's error for using \<^verbatim>\<open>undefined\<close> as an object, and
  \<open>DatabaseError\<close> is the error value that the mysql driver hands to a callback.
\<close>

datatype error = Error string | TypeError | DatabaseError string

text \<open>
  The result of running a piece of the program: it returns, it throws, or it leaves
  the embedding (\<open>Beyond\<close>): the program reached a built-in object through a name
  inherited from \<^verbatim>\<open>Object.prototype\<close>, whose behaviour is not described here.
  \<open>Beyond\<close> is no outcome of the program. Where the embedding answers \<open>Beyond\<close> the
  program itself goes on: an assignment to a property of a built-in returns or throws,
  depending on the built-in and on the property, and the run may well return a result.
  A statement that depends on what the program does there says by a hypothesis of its
  own that the document keeps clear of the built-ins, and does not rely on \<open>Beyond\<close>
  being different from \<open>Normal\<close>.
\<close>

datatype 'a completion = Normal 'a | Throw error | Beyond

text \<open>\<^verbatim>\<open>ToString\<close>, as used by a template literal and by a computed property key.\<close>

fun to_string :: "jsval \<Rightarrow> string" where
  "to_string JUndefined = ''undefined''"
| "to_string JNull = ''null''"
| "to_string (JBool b) = (if b then ''true'' else ''false'')"
| "to_string (JStr s) = s"

text \<open>\<^verbatim>\<open>ToBoolean\<close>, as used by \<^verbatim>\<open>if(field.master)\<close>.\<close>

fun truthy :: "jsval \<Rightarrow> bool" where
  "truthy JUndefined = False"
| "truthy JNull = False"
| "truthy (JBool b) = b"
| "truthy (JStr s) = (s \<noteq> [])"

text \<open>The loose comparison \<^verbatim>\<open>v == null\<close>.\<close>

fun is_nullish :: "jsval \<Rightarrow> bool" where
  "is_nullish JUndefined = True"
| "is_nullish JNull = True"
| "is_nullish _ = False"

section \<open>Relation kinds\<close>

definition ONE_TO_ONE :: string where "ONE_TO_ONE = ''OneToOne''"
definition ONE_TO_MANY :: string where "ONE_TO_MANY = ''OneToMany''"
definition MANY_TO_ONE :: string where "MANY_TO_ONE = ''ManyToOne''"
definition MANY_TO_MANY :: string where "MANY_TO_MANY = ''ManyToMany''"

text \<open>
  \<^verbatim>\<open>invRelation\<close>: a \<^verbatim>\<open>switch\<close> compares with strict equality, so only the four strings
  match; everything else reaches \<^verbatim>\<open>default\<close> and throws.
\<close>

definition invRelation :: "jsval \<Rightarrow> jsval completion" where
  "invRelation relation =
     (if relation = JStr ONE_TO_ONE \<or> relation = JStr MANY_TO_MANY then Normal relation
      else if relation = JStr ONE_TO_MANY then Normal (JStr MANY_TO_ONE)
      else if relation = JStr MANY_TO_ONE then Normal (JStr ONE_TO_MANY)
      else Throw (Error (''Undefined relation '' @ to_string relation @ ''.'')))"

definition relation_kinds :: "jsval set" where
  "relation_kinds = {JStr ONE_TO_ONE, JStr ONE_TO_MANY, JStr MANY_TO_ONE, JStr MANY_TO_MANY}"

section \<open>Objects with ordered properties\<close>

text \<open>
  A plain JavaScript object is a list of its own properties in enumeration order,
  the order of \<^verbatim>\<open>for ... in\<close> and \<^verbatim>\<open>Object.keys\<close>: array-index keys (canonical
  decimal strings below \<open>2^32 - 1\<close>) first, ascending, then the other keys in the
  order of their creation. \<open>map_of\<close> reads a property; \<open>set_prop\<close> is the
  assignment \<^verbatim>\<open>obj[k] = v\<close>, which keeps the place of an existing key.
\<close>

type_synonym 'a object = "(string \<times> 'a) list"

definition is_digit :: "char \<Rightarrow> bool" where
  "is_digit c = (48 \<le> (of_char c :: int) \<and> (of_char c :: int) \<le> 57)"

definition digits_value :: "string \<Rightarrow> int" where
  "digits_value s = foldl (\<lambda>n c. 10 * n + (of_char c - 48)) 0 s"

definition array_index :: "string \<Rightarrow> int option" where
  "array_index s =
     (if s \<noteq> [] \<and> list_all is_digit s \<and> (hd s \<noteq> CHR ''0'' \<or> s = ''0'')
         \<and> digits_value s < 4294967295
      then Some (digits_value s) else None)"

definition precedes :: "string \<Rightarrow> string \<Rightarrow> bool" where
  "precedes k k' =
     (case array_index k of
        None \<Rightarrow> False
      | Some i \<Rightarrow> (case array_index k' of None \<Rightarrow> True | Some j \<Rightarrow> i < j))"

text \<open>
  A list of property names is in enumeration order when no name precedes the name
  before it: the array-index keys come first, ascending.
\<close>

fun enumeration_order :: "string list \<Rightarrow> bool" where
  "enumeration_order (k # k' # ks) = (\<not> precedes k' k \<and> enumeration_order (k' # ks))"
| "enumeration_order ks = True"

fun add_prop :: "string \<Rightarrow> 'a \<Rightarrow> 'a object \<Rightarrow> 'a object" where
  "add_prop k v [] = [(k, v)]"
| "add_prop k v (p # ps) =
     (if precedes k (fst p) then (k, v) # p # ps else p # add_prop k v ps)"

definition set_prop :: "string \<Rightarrow> 'a \<Rightarrow> 'a object \<Rightarrow> 'a object" where
  "set_prop k v obj =
     (if k \<in> set (map fst obj) then map (\<lambda>p. if fst p = k then (k, v) else p) obj
      else add_prop k v obj)"

text \<open>
  The property names that every plain object inherits from \<^verbatim>\<open>Object.prototype\<close>.
  Reading one of them on an object that has no own property of that name gives a
  built-in, not \<^verbatim>\<open>undefined\<close>.
\<close>

definition object_prototype_names :: "string list" where
  "object_prototype_names =
     [''constructor'', ''__defineGetter__'', ''__defineSetter__'', ''hasOwnProperty'',
      ''__lookupGetter__'', ''__lookupSetter__'', ''isPrototypeOf'',
      ''propertyIsEnumerable'', ''toString'', ''valueOf'', ''__proto__'',
      ''toLocaleString'']"

section \<open>The schema document\<close>

record field =
  type :: jsval
  nullable :: jsval
  relation :: jsval
  as :: jsval
  master :: jsval

type_synonym collection = "field object"
type_synonym schema = "collection object"

record database_config =
  host :: jsval
  user :: jsval
  pass :: jsval
  db :: jsval

record config =
  database :: database_config
  schema :: schema

text \<open>
  The mysql driver's escaping functions. \<^verbatim>\<open>mysql.escape\<close> is applied to a
  configuration value and to the numbers 0 and 1.
\<close>

datatype sqlarg = Num int | Val jsval

record mysql =
  escapeId :: "string \<Rightarrow> string"
  escape :: "sqlarg \<Rightarrow> string"

text \<open>
  The service object. The class stores \<^verbatim>\<open>_database\<close> and \<^verbatim>\<open>_collections\<close>; \<open>conn\<close> is
  the member \<^verbatim>\<open>this.conn\<close> that \<^verbatim>\<open>escId\<close> and \<^verbatim>\<open>escVal\<close> read, \<open>None\<close> while nothing
  has assigned it.
\<close>

record restify =
  r_database :: database_config
  r_collections :: schema
  conn :: "mysql option"

section \<open>Construction: the two passes over the schema\<close>

text \<open>
  \<^verbatim>\<open>JSON.parse(JSON.stringify(config.schema))\<close> gives a tree of new objects with the
  same properties in the same order: as a value it is the document itself. (The
  store-based model further down makes the new objects explicit.)
\<close>

text \<open>The object literal of lines 45 to 48: its \<open>nullable\<close> is the string \<^verbatim>\<open>'false'\<close>.\<close>

definition id_field :: field where
  "id_field = \<lparr>type = JStr ''int'', nullable = JStr ''false'', relation = JUndefined,
                as = JUndefined, master = JUndefined\<rparr>"

text \<open>The body of the inner loop of the first pass (lines 51 to 59).\<close>

definition init_field :: "field \<Rightarrow> field" where
  "init_field field =
     (let field = (if is_nullish (nullable field) then field\<lparr>nullable := JBool True\<rparr>
                   else field)
      in if \<not> is_nullish (relation field) then field\<lparr>master := JBool True\<rparr> else field)"

text \<open>
  A \<^verbatim>\<open>for ... in\<close> loop runs over the keys the object has when the loop starts and
  reads each property when its turn comes. No key is ever deleted, so the \<open>None\<close>
  branches below are never taken on a key list taken from the object.
\<close>

fun init_fields :: "string list \<Rightarrow> collection \<Rightarrow> collection" where
  "init_fields [] collection = collection"
| "init_fields (fieldName # rest) collection =
     (case map_of collection fieldName of
        None \<Rightarrow> init_fields rest collection
      | Some field \<Rightarrow>
          init_fields rest (set_prop fieldName (init_field field) collection))"

definition init_collection :: "collection \<Rightarrow> collection" where
  "init_collection collection =
     (let collection = set_prop ''_id'' id_field collection
      in init_fields (map fst collection) collection)"

fun init_collections :: "string list \<Rightarrow> schema \<Rightarrow> schema" where
  "init_collections [] s = s"
| "init_collections (collectionName # rest) s =
     (case map_of s collectionName of
        None \<Rightarrow> init_collections rest s
      | Some collection \<Rightarrow>
          init_collections rest (set_prop collectionName (init_collection collection) s))"

text \<open>The object literal of lines 69 to 74.\<close>

definition inverse_field :: "string \<Rightarrow> string \<Rightarrow> jsval \<Rightarrow> field" where
  "inverse_field collectionName fieldName r =
     \<lparr>type = JStr collectionName, nullable = JBool False, relation = r,
      as = JStr fieldName, master = JUndefined\<rparr>"

text \<open>
  The assignment of lines 69 to 74. The right-hand side is evaluated first, so an
  unknown relation kind throws before the target is written. Writing a property of
  \<^verbatim>\<open>undefined\<close> throws a TypeError. A \<open>type\<close> that is not a collection but is a name
  inherited from \<^verbatim>\<open>Object.prototype\<close> reaches a built-in, and the key \<^verbatim>\<open>__proto__\<close> on
  a collection without such an own property reaches the prototype setter: both are
  \<open>Beyond\<close>. (There the program writes to the built-in, or replaces the prototype of
  the collection, and goes on with the loop; the schema gets no new field.)
\<close>

definition add_inverse :: "string \<Rightarrow> string \<Rightarrow> field \<Rightarrow> schema \<Rightarrow> schema completion" where
  "add_inverse collectionName fieldName field s =
     (case invRelation (relation field) of
        Throw e \<Rightarrow> Throw e
      | Beyond \<Rightarrow> Beyond
      | Normal r \<Rightarrow>
          (let t = to_string (type field); a = to_string (as field)
           in case map_of s t of
                None \<Rightarrow> if t \<in> set object_prototype_names then Beyond else Throw TypeError
              | Some target \<Rightarrow>
                  if a = ''__proto__'' \<and> a \<notin> set (map fst target) then Beyond
                  else Normal (set_prop t
                        (set_prop a (inverse_field collectionName fieldName r) target) s)))"

text \<open>
  The second pass (lines 63 to 77). \<open>collection\<close> is a reference, so a field that an
  earlier step of the same loop has replaced is read in its new state: the model
  reads the collection from the current schema at every step.
\<close>

fun link_fields :: "string \<Rightarrow> string list \<Rightarrow> schema \<Rightarrow> schema completion" where
  "link_fields collectionName [] s = Normal s"
| "link_fields collectionName (fieldName # rest) s =
     (case map_of s collectionName of
        None \<Rightarrow> link_fields collectionName rest s
      | Some collection \<Rightarrow>
          (case map_of collection fieldName of
             None \<Rightarrow> link_fields collectionName rest s
           | Some field \<Rightarrow>
               if truthy (master field) then
                 (case add_inverse collectionName fieldName field s of
                    Normal s' \<Rightarrow> link_fields collectionName rest s'
                  | Throw e \<Rightarrow> Throw e
                  | Beyond \<Rightarrow> Beyond)
               else link_fields collectionName rest s))"

fun link_collections :: "string list \<Rightarrow> schema \<Rightarrow> schema completion" where
  "link_collections [] s = Normal s"
| "link_collections (collectionName # rest) s =
     (case map_of s collectionName of
        None \<Rightarrow> link_collections rest s
      | Some collection \<Rightarrow>
          (case link_fields collectionName (map fst collection) s of
             Normal s' \<Rightarrow> link_collections rest s'
           | Throw e \<Rightarrow> Throw e
           | Beyond \<Rightarrow> Beyond))"

definition resolve :: "schema \<Rightarrow> schema completion" where
  "resolve doc =
     (let s = init_collections (map fst doc) doc
      in link_collections (map fst s) s)"

definition constructor :: "config \<Rightarrow> restify completion" where
  "constructor config =
     (let d = \<lparr>host = host (database config), user = user (database config),
               pass = pass (database config), db = db (database config)\<rparr>
      in case resolve (schema config) of
           Normal s \<Rightarrow> Normal \<lparr>r_database = d, r_collections = s, conn = None\<rparr>
         | Throw e \<Rightarrow> Throw e
         | Beyond \<Rightarrow> Beyond)"

section \<open>SQL statements\<close>

text \<open>
  \<^verbatim>\<open>mysql.escapeId\<close> and \<^verbatim>\<open>mysql.escape\<close> belong to the mysql driver, not to this
  repository: the statement builders take the driver as the parameter \<open>mysql\<close>.
\<close>

definition stmtCreateTable :: "mysql \<Rightarrow> string \<Rightarrow> string" where
  "stmtCreateTable mysql table =
     ''CREATE TABLE IF NOT EXISTS '' @ escapeId mysql table @ '' (''
       @ ''id int, PRIMARY KEY(id)''
       @ '');''"

definition stmtSelectTableName :: "mysql \<Rightarrow> restify \<Rightarrow> string" where
  "stmtSelectTableName mysql this =
     ''SELECT table_name ''
       @ ''FROM information_schema.tables ''
       @ ''WHERE table_schema='' @ escape mysql (Val (db (r_database this))) @ '';''"

definition stmtSetForeignKeyCheck :: "mysql \<Rightarrow> bool \<Rightarrow> string" where
  "stmtSetForeignKeyCheck mysql state =
     ''SET FOREIGN_KEY_CHECKS='' @ escape mysql (Num (if state then 1 else 0)) @ '';''"

definition stmtDropTable :: "mysql \<Rightarrow> string \<Rightarrow> string" where
  "stmtDropTable mysql table = ''DROP TABLE '' @ escapeId mysql table @ '';''"

section \<open>Connections, reset and sync\<close>

text \<open>
  The database server is outside the program: \<open>respond\<close> is what a statement gets
  back (an error, or rows, each row read through its \<^verbatim>\<open>table_name\<close>), \<open>finish\<close> is
  what closing the connection reports. Both may depend on everything that happened on
  the connection before, which the trace records: the creation of the connection, each
  logged line, each statement with its error if it failed, and the call of
  \<^verbatim>\<open>conn.end\<close>.
\<close>

datatype event =
    Connect database_config
  | Debug string
  | Query string "string option"
  | End "string option"

record server =
  respond :: "event list \<Rightarrow> string \<Rightarrow> string + string list"
  finish :: "event list \<Rightarrow> string option"

type_synonym 'a task = "event list \<Rightarrow> 'a completion \<times> event list"

text \<open>
  \<^verbatim>\<open>await\<close> inside an \<^verbatim>\<open>async\<close> function: the rest runs when the promise is fulfilled;
  a rejection leaves the function at once, as a rejection of its own promise.
\<close>

definition await :: "'a task \<Rightarrow> ('a \<Rightarrow> 'b task) \<Rightarrow> 'b task" where
  "await p rest tr =
     (case p tr of
        (Normal x, tr') \<Rightarrow> rest x tr'
      | (Throw e, tr') \<Rightarrow> (Throw e, tr')
      | (Beyond, tr') \<Rightarrow> (Beyond, tr'))"

definition connect :: "restify \<Rightarrow> event list" where
  "connect this = [Connect (r_database this)]"

definition exec :: "server \<Rightarrow> string \<Rightarrow> string list task" where
  "exec srv sql tr =
     (let tr = tr @ [Debug (''SQL> '' @ sql)]
      in case respond srv tr sql of
           Inl err \<Rightarrow> (Throw (DatabaseError err), tr @ [Query sql (Some err)])
         | Inr rows \<Rightarrow> (Normal rows, tr @ [Query sql None]))"

definition conn_end :: "server \<Rightarrow> unit task" where
  "conn_end srv tr =
     (case finish srv tr of
        Some err \<Rightarrow> (Throw (DatabaseError err), tr @ [End (Some err)])
      | None \<Rightarrow> (Normal (), tr @ [End None]))"

fun drop_tables :: "mysql \<Rightarrow> server \<Rightarrow> string list \<Rightarrow> unit task" where
  "drop_tables mysql srv [] = (\<lambda>tr. (Normal (), tr))"
| "drop_tables mysql srv (table_name # records) =
     await (exec srv (stmtDropTable mysql table_name))
       (\<lambda>_. drop_tables mysql srv records)"

definition reset :: "mysql \<Rightarrow> server \<Rightarrow> restify \<Rightarrow> unit completion \<times> event list" where
  "reset mysql srv this =
     (await (exec srv (stmtSelectTableName mysql this)) (\<lambda>tableNameRecords.
      await (exec srv (stmtSetForeignKeyCheck mysql False)) (\<lambda>_.
      await (drop_tables mysql srv tableNameRecords) (\<lambda>_.
      await (exec srv (stmtSetForeignKeyCheck mysql True)) (\<lambda>_.
      conn_end srv)))))
       (connect this)"

fun create_tables :: "mysql \<Rightarrow> server \<Rightarrow> string list \<Rightarrow> unit task" where
  "create_tables mysql srv [] = (\<lambda>tr. (Normal (), tr))"
| "create_tables mysql srv (collectionName # rest) =
     await (exec srv (stmtCreateTable mysql collectionName))
       (\<lambda>_. create_tables mysql srv rest)"

definition sync :: "mysql \<Rightarrow> server \<Rightarrow> restify \<Rightarrow> jsval \<Rightarrow> unit completion \<times> event list" where
  "sync mysql srv this update =
     (await (create_tables mysql srv (map fst (r_collections this))) (\<lambda>_.
      conn_end srv))
       (connect this)"

definition released :: "event list \<Rightarrow> bool" where
  "released tr = list_ex (\<lambda>e. case e of End _ \<Rightarrow> True | _ \<Rightarrow> False) tr"

definition statement_failed :: "event list \<Rightarrow> bool" where
  "statement_failed tr = list_ex (\<lambda>e. case e of Query _ (Some _) \<Rightarrow> True | _ \<Rightarrow> False) tr"

section \<open>Introspection and escaping helpers\<close>

definition collections :: "restify \<Rightarrow> string list" where
  "collections this = map fst (r_collections this)"

text \<open>
  \<^verbatim>\<open>Object.keys(undefined)\<close> throws a TypeError; a name inherited from
  \<^verbatim>\<open>Object.prototype\<close> reaches a built-in (\<open>Beyond\<close>).
\<close>

definition fields :: "restify \<Rightarrow> string \<Rightarrow> string list completion" where
  "fields this collection =
     (case map_of (r_collections this) collection of
        Some c \<Rightarrow> Normal (map fst c)
      | None \<Rightarrow> if collection \<in> set object_prototype_names then Beyond else Throw TypeError)"

definition escId :: "restify \<Rightarrow> string \<Rightarrow> string completion" where
  "escId this ident =
     (case conn this of None \<Rightarrow> Throw TypeError | Some c \<Rightarrow> Normal (escapeId c ident))"

definition escVal :: "restify \<Rightarrow> sqlarg \<Rightarrow> string completion" where
  "escVal this val =
     (case conn this of None \<Rightarrow> Throw TypeError | Some c \<Rightarrow> Normal (escape c val))"

section \<open>The constructor on a store of objects\<close>

text \<open>
  Whether the caller's document is touched depends on which object each assignment
  hits, so this second model of the constructor keeps the objects in a store: a list
  of cells, an object's address being its index. A cell is a field descriptor, or an
  object whose property values are addresses (the schema and its collections).
  Creating an object appends a cell; an assignment to a property replaces the cell at
  the address it is given. A store or address that does not have the shape of a
  schema document gives \<open>None\<close> or \<open>Beyond\<close>.
\<close>

datatype cell = FieldCell field | ObjectCell "nat object"

type_synonym heap = "cell list"

definition read :: "heap \<Rightarrow> nat \<Rightarrow> cell option" where
  "read h a = (if a < length h then Some (h ! a) else None)"

text \<open>
  \<^verbatim>\<open>JSON.parse(JSON.stringify(config.schema))\<close>: every object of the document is read
  and a new object with the same properties is created for it.
\<close>

fun copy_fields :: "nat object \<Rightarrow> heap \<Rightarrow> (nat object \<times> heap) option" where
  "copy_fields [] h = Some ([], h)"
| "copy_fields ((fieldName, a) # rest) h =
     (case read h a of
        Some (FieldCell field) \<Rightarrow>
          (case copy_fields rest (h @ [FieldCell field]) of
             Some (rest', h') \<Rightarrow> Some ((fieldName, length h) # rest', h')
           | None \<Rightarrow> None)
      | _ \<Rightarrow> None)"

fun copy_collections :: "nat object \<Rightarrow> heap \<Rightarrow> (nat object \<times> heap) option" where
  "copy_collections [] h = Some ([], h)"
| "copy_collections ((collectionName, a) # rest) h =
     (case read h a of
        Some (ObjectCell ps) \<Rightarrow>
          (case copy_fields ps h of
             Some (ps', h1) \<Rightarrow>
               (case copy_collections rest (h1 @ [ObjectCell ps']) of
                  Some (rest', h') \<Rightarrow> Some ((collectionName, length h1) # rest', h')
                | None \<Rightarrow> None)
           | None \<Rightarrow> None)
      | _ \<Rightarrow> None)"

definition json_copy :: "nat \<Rightarrow> heap \<Rightarrow> (nat \<times> heap) option" where
  "json_copy root h =
     (case read h root of
        Some (ObjectCell cs) \<Rightarrow>
          (case copy_collections cs h of
             Some (cs', h') \<Rightarrow> Some (length h', h' @ [ObjectCell cs'])
           | None \<Rightarrow> None)
      | _ \<Rightarrow> None)"

text \<open>First pass: \<open>collection\<close> and \<open>field\<close> are addresses; the writes go where they point.\<close>

fun heap_init_fields :: "string list \<Rightarrow> nat \<Rightarrow> heap \<Rightarrow> heap option" where
  "heap_init_fields [] collection h = Some h"
| "heap_init_fields (fieldName # rest) collection h =
     (case read h collection of
        Some (ObjectCell ps) \<Rightarrow>
          (case map_of ps fieldName of
             None \<Rightarrow> heap_init_fields rest collection h
           | Some field \<Rightarrow>
               (case read h field of
                  Some (FieldCell f) \<Rightarrow>
                    heap_init_fields rest collection (h[field := FieldCell (init_field f)])
                | _ \<Rightarrow> None))
      | _ \<Rightarrow> None)"

fun heap_init_collections :: "string list \<Rightarrow> nat \<Rightarrow> heap \<Rightarrow> heap option" where
  "heap_init_collections [] colls h = Some h"
| "heap_init_collections (collectionName # rest) colls h =
     (case read h colls of
        Some (ObjectCell cs) \<Rightarrow>
          (case map_of cs collectionName of
             None \<Rightarrow> heap_init_collections rest colls h
           | Some collection \<Rightarrow>
               (case read h collection of
                  Some (ObjectCell ps) \<Rightarrow>
                    (let ps' = set_prop ''_id'' (length h) ps;
                         h1 = (h @ [FieldCell id_field])[collection := ObjectCell ps']
                     in case heap_init_fields (map fst ps') collection h1 of
                          Some h2 \<Rightarrow> heap_init_collections rest colls h2
                        | None \<Rightarrow> None)
                | _ \<Rightarrow> None))
      | _ \<Rightarrow> None)"

text \<open>
  Second pass. The object literal is created first; the assignment then needs
  \<^verbatim>\<open>this._collections[field.type]\<close> to be an object.
\<close>

definition heap_add_inverse ::
  "string \<Rightarrow> string \<Rightarrow> field \<Rightarrow> nat \<Rightarrow> heap \<Rightarrow> unit completion \<times> heap" where
  "heap_add_inverse collectionName fieldName field colls h =
     (case invRelation (relation field) of
        Throw e \<Rightarrow> (Throw e, h)
      | Beyond \<Rightarrow> (Beyond, h)
      | Normal r \<Rightarrow>
          (let t = to_string (type field); a = to_string (as field);
               h1 = h @ [FieldCell (inverse_field collectionName fieldName r)]
           in case read h1 colls of
                Some (ObjectCell cs) \<Rightarrow>
                  (case map_of cs t of
                     None \<Rightarrow>
                       (if t \<in> set object_prototype_names then Beyond else Throw TypeError, h1)
                   | Some target \<Rightarrow>
                       (case read h1 target of
                          Some (ObjectCell ps) \<Rightarrow>
                            if a = ''__proto__'' \<and> a \<notin> set (map fst ps) then (Beyond, h1)
                            else (Normal (), h1[target := ObjectCell (set_prop a (length h) ps)])
                        | _ \<Rightarrow> (Beyond, h1)))
              | _ \<Rightarrow> (Beyond, h1)))"

fun heap_link_fields ::
  "string \<Rightarrow> nat \<Rightarrow> string list \<Rightarrow> nat \<Rightarrow> heap \<Rightarrow> unit completion \<times> heap" where
  "heap_link_fields collectionName collection [] colls h = (Normal (), h)"
| "heap_link_fields collectionName collection (fieldName # rest) colls h =
     (case read h collection of
        Some (ObjectCell ps) \<Rightarrow>
          (case map_of ps fieldName of
             None \<Rightarrow> heap_link_fields collectionName collection rest colls h
           | Some field \<Rightarrow>
               (case read h field of
                  Some (FieldCell f) \<Rightarrow>
                    if truthy (master f) then
                      (case heap_add_inverse collectionName fieldName f colls h of
                         (Normal _, h') \<Rightarrow>
                           heap_link_fields collectionName collection rest colls h'
                       | (Throw e, h') \<Rightarrow> (Throw e, h')
                       | (Beyond, h') \<Rightarrow> (Beyond, h'))
                    else heap_link_fields collectionName collection rest colls h
                | _ \<Rightarrow> (Beyond, h)))
      | _ \<Rightarrow> (Beyond, h))"

fun heap_link_collections :: "string list \<Rightarrow> nat \<Rightarrow> heap \<Rightarrow> unit completion \<times> heap" where
  "heap_link_collections [] colls h = (Normal (), h)"
| "heap_link_collections (collectionName # rest) colls h =
     (case read h colls of
        Some (ObjectCell cs) \<Rightarrow>
          (case map_of cs collectionName of
             None \<Rightarrow> heap_link_collections rest colls h
           | Some collection \<Rightarrow>
               (case read h collection of
                  Some (ObjectCell ps) \<Rightarrow>
                    (case heap_link_fields collectionName collection (map fst ps) colls h of
                       (Normal _, h') \<Rightarrow> heap_link_collections rest colls h'
                     | (Throw e, h') \<Rightarrow> (Throw e, h')
                     | (Beyond, h') \<Rightarrow> (Beyond, h'))
                | _ \<Rightarrow> (Beyond, h)))
      | _ \<Rightarrow> (Beyond, h))"

text \<open>
  The constructor: \<open>document\<close> is the address of \<^verbatim>\<open>config.schema\<close>; the result is the
  address held by \<^verbatim>\<open>this._collections\<close>, with the store as the constructor leaves it,
  also when it throws.
\<close>

definition heap_keys :: "heap \<Rightarrow> nat \<Rightarrow> string list" where
  "heap_keys h a = (case read h a of Some (ObjectCell ps) \<Rightarrow> map fst ps | _ \<Rightarrow> [])"

definition heap_constructor :: "nat \<Rightarrow> heap \<Rightarrow> nat completion \<times> heap" where
  "heap_constructor document h =
     (case json_copy document h of
        None \<Rightarrow> (Beyond, h)
      | Some (colls, h1) \<Rightarrow>
          (case heap_init_collections (heap_keys h1 colls) colls h1 of
             None \<Rightarrow> (Beyond, h1)
           | Some h2 \<Rightarrow>
               (case heap_link_collections (heap_keys h2 colls) colls h2 of
                  (Normal _, h3) \<Rightarrow> (Normal colls, h3)
                | (Throw e, h3) \<Rightarrow> (Throw e, h3)
                | (Beyond, h3) \<Rightarrow> (Beyond, h3))))"

text \<open>Reading a schema off the store, to compare the two models.\<close>

fun view_fields :: "heap \<Rightarrow> nat object \<Rightarrow> collection option" where
  "view_fields h [] = Some []"
| "view_fields h ((fieldName, a) # rest) =
     (case read h a of
        Some (FieldCell f) \<Rightarrow>
          (case view_fields h rest of Some c \<Rightarrow> Some ((fieldName, f) # c) | None \<Rightarrow> None)
      | _ \<Rightarrow> None)"

fun view_collections :: "heap \<Rightarrow> nat object \<Rightarrow> schema option" where
  "view_collections h [] = Some []"
| "view_collections h ((collectionName, a) # rest) =
     (case read h a of
        Some (ObjectCell ps) \<Rightarrow>
          (case view_fields h ps of
             Some c \<Rightarrow>
               (case view_collections h rest of
                  Some s \<Rightarrow> Some ((collectionName, c) # s)
                | None \<Rightarrow> None)
           | None \<Rightarrow> None)
      | _ \<Rightarrow> None)"

definition view :: "heap \<Rightarrow> nat \<Rightarrow> schema option" where
  "view h a = (case read h a of Some (ObjectCell cs) \<Rightarrow> view_collections h cs | _ \<Rightarrow> None)"

section \<open>Notions used in the statements\<close>

text \<open>The field that a collection of a schema holds under a name.\<close>

definition slot :: "schema \<Rightarrow> string \<Rightarrow> string \<Rightarrow> field option" where
  "slot s collectionName fieldName =
     (case map_of s collectionName of None \<Rightarrow> None | Some c \<Rightarrow> map_of c fieldName)"

text \<open>All fields of a document, each with the names of its collection and of itself.\<close>

definition entries :: "schema \<Rightarrow> (string \<times> string \<times> field) list" where
  "entries doc = concat (map (\<lambda>(cn, c). map (\<lambda>(fn, f). (cn, fn, f)) c) doc)"

text \<open>
  The fields of the document that the first pass leaves marked master: those with a
  \<open>relation\<close> (and those that already carry a truthy \<open>master\<close> attribute). A field
  named \<^verbatim>\<open>_id\<close> is replaced by the identity field and is not among them.
\<close>

definition declared_master :: "field \<Rightarrow> bool" where
  "declared_master f \<longleftrightarrow> \<not> is_nullish (relation f) \<or> truthy (master f)"

definition master_fields :: "schema \<Rightarrow> (string \<times> string \<times> field) list" where
  "master_fields doc =
     filter (\<lambda>(cn, fn, f). fn \<noteq> ''_id'' \<and> declared_master f) (entries doc)"

text \<open>Where the inverse of a master field is written: collection and field name.\<close>

definition aim :: "field \<Rightarrow> string \<times> string" where
  "aim f = (to_string (type f), to_string (as f))"

text \<open>
  A document keeps clear of the built-ins when every master field has a \<open>type\<close> that is
  one of the document's collections or is not a name inherited from
  \<^verbatim>\<open>Object.prototype\<close>, and an \<open>as\<close> other than \<^verbatim>\<open>__proto__\<close>. On such a document the
  second pass only writes to collections of the schema, or fails.
\<close>

definition clear_of_builtins :: "schema \<Rightarrow> bool" where
  "clear_of_builtins doc =
     list_all (\<lambda>(cn, fn, f).
         (to_string (type f) \<in> set (map fst doc)
            \<or> to_string (type f) \<notin> set object_prototype_names)
         \<and> to_string (as f) \<noteq> ''__proto__'')
       (master_fields doc)"

text \<open>
  A document is made of plain objects: no collection name occurs twice, no field name
  occurs twice in a collection, and the names stand in the order in which the program
  enumerates them. Every JavaScript object is like that; the lists of the embedding
  need it said.
\<close>

definition plain_objects :: "schema \<Rightarrow> bool" where
  "plain_objects doc \<longleftrightarrow>
     distinct (map fst doc) \<and> enumeration_order (map fst doc)
     \<and> list_all (\<lambda>(cn, c). distinct (map fst c) \<and> enumeration_order (map fst c)) doc"

text \<open>
  The order in which the loops of the constructor come to the places of a document:
  the place \<open>p\<close> (a collection name and a field name) is \<open>earlier\<close> than \<open>q\<close> when its
  collection stands before the collection of \<open>q\<close> in the document, or both are in the
  same collection and the field of \<open>p\<close> stands before the field of \<open>q\<close> there.
\<close>

definition earlier :: "schema \<Rightarrow> string \<times> string \<Rightarrow> string \<times> string \<Rightarrow> bool" where
  "earlier doc p q \<longleftrightarrow>
     fst p \<in> set (takeWhile (\<lambda>k. k \<noteq> fst q) (map fst doc))
     \<or> (fst p = fst q
         \<and> (case map_of doc (fst q) of
               None \<Rightarrow> False
             | Some c \<Rightarrow> snd p \<in> set (takeWhile (\<lambda>k. k \<noteq> snd q) (map fst c))))"

text \<open>The schema between the two passes, and what the first pass leaves in a slot.\<close>

definition start :: "schema \<Rightarrow> schema" where
  "start doc = init_collections (map fst doc) doc"

definition init_slot :: "collection \<Rightarrow> string \<Rightarrow> field option" where
  "init_slot c fn = (if fn = ''_id'' then Some id_field else map_option init_field (map_of c fn))"

text \<open>
  The invariant of the second pass, relative to the schema \<open>b\<close> it started from: the
  collections are the same, and every slot holds what it held in \<open>b\<close> or the inverse
  of a master field of \<open>b\<close> that aims at it.
\<close>

definition derived_at :: "schema \<Rightarrow> string \<Rightarrow> string \<Rightarrow> field \<Rightarrow> bool" where
  "derived_at b cn fn d \<longleftrightarrow>
     (\<exists>cn' fn' f r. slot b cn' fn' = Some f \<and> truthy (master f)
        \<and> to_string (type f) = cn \<and> to_string (as f) = fn
        \<and> invRelation (relation f) = Normal r \<and> d = inverse_field cn' fn' r)"

definition linked :: "schema \<Rightarrow> schema \<Rightarrow> bool" where
  "linked b s \<longleftrightarrow>
     map fst s = map fst b
     \<and> (\<forall>cn fn. slot s cn fn = slot b cn fn
            \<or> (\<exists>d. slot s cn fn = Some d \<and> derived_at b cn fn d))"

text \<open>
  What the writes of the constructor keep of the order of the property names: the names
  of \<open>c\<close> are distinct, and those that \<open>c0\<close> has stand in \<open>c\<close> in the order they have in
  \<open>c0\<close>. \<open>keeps_order\<close> says it of every collection of a document.
\<close>

definition extends_keys :: "'a object \<Rightarrow> 'a object \<Rightarrow> bool" where
  "extends_keys c0 c \<longleftrightarrow>
     distinct (map fst c) \<and> filter (\<lambda>k. k \<in> set (map fst c0)) (map fst c) = map fst c0"

definition keeps_order :: "schema \<Rightarrow> schema \<Rightarrow> bool" where
  "keeps_order doc s \<longleftrightarrow>
     (\<forall>cn c0. map_of doc cn = Some c0 \<longrightarrow> (\<exists>c. map_of s cn = Some c \<and> extends_keys c0 c))"

section \<open>Example documents and collaborators\<close>

text \<open>Field descriptors as a document writes them: a data field and a relation field.\<close>

definition plain :: "string \<Rightarrow> field" where
  "plain t = \<lparr>type = JStr t, nullable = JUndefined, relation = JUndefined,
              as = JUndefined, master = JUndefined\<rparr>"

definition relates :: "string \<Rightarrow> string \<Rightarrow> string \<Rightarrow> field" where
  "relates t k a = \<lparr>type = JStr t, nullable = JUndefined, relation = JStr k,
                    as = JStr a, master = JUndefined\<rparr>"

definition example_database :: database_config where
  "example_database = \<lparr>host = JStr ''localhost'', user = JStr ''root'',
                        pass = JStr ''secret'', db = JStr ''app''\<rparr>"

text \<open>
  The document of the specification's example, and the service the constructor builds
  from it.
\<close>

definition profile_config :: config where
  "profile_config = \<lparr>database = example_database, schema =
     [(''User'', [(''name'', plain ''string''),
                  (''profile'', relates ''Profile'' ''OneToOne'' ''owner'')]),
      (''Profile'', [(''bio'', plain ''string'')])]\<rparr>"

definition profile_service :: restify where
  "profile_service = \<lparr>r_database = example_database, r_collections =
     [(''User'',
        [(''name'', \<lparr>type = JStr ''string'', nullable = JBool True, relation = JUndefined,
                      as = JUndefined, master = JUndefined\<rparr>),
         (''profile'', \<lparr>type = JStr ''Profile'', nullable = JBool True,
                         relation = JStr ''OneToOne'', as = JStr ''owner'',
                         master = JBool True\<rparr>),
         (''_id'', \<lparr>type = JStr ''int'', nullable = JStr ''false'', relation = JUndefined,
                     as = JUndefined, master = JUndefined\<rparr>)]),
      (''Profile'',
        [(''bio'', \<lparr>type = JStr ''string'', nullable = JBool True, relation = JUndefined,
                     as = JUndefined, master = JUndefined\<rparr>),
         (''_id'', \<lparr>type = JStr ''int'', nullable = JStr ''false'', relation = JUndefined,
                     as = JUndefined, master = JUndefined\<rparr>),
         (''owner'', \<lparr>type = JStr ''User'', nullable = JBool False,
                       relation = JStr ''OneToOne'', as = JStr ''profile'',
                       master = JUndefined\<rparr>)])],
     conn = None\<rparr>"

text \<open>Two relation fields of one collection that aim at the same field of another.\<close>

definition twin_config :: config where
  "twin_config = \<lparr>database = example_database, schema =
     [(''A'', [(''first'', relates ''B'' ''OneToOne'' ''x''),
               (''second'', relates ''B'' ''OneToMany'' ''x'')]),
      (''B'', [])]\<rparr>"

text \<open>The service the constructor builds from it: the inverse of the second field stays.\<close>

definition twin_service :: restify where
  "twin_service = \<lparr>r_database = example_database, r_collections =
       [(''A'', [(''first'', \<lparr>type = JStr ''B'', nullable = JBool True,
                               relation = JStr ''OneToOne'', as = JStr ''x'',
                               master = JBool True\<rparr>),
                 (''second'', \<lparr>type = JStr ''B'', nullable = JBool True,
                                relation = JStr ''OneToMany'', as = JStr ''x'',
                                master = JBool True\<rparr>),
                 (''_id'', id_field)]),
        (''B'', [(''_id'', id_field),
                 (''x'', \<lparr>type = JStr ''A'', nullable = JBool False,
                           relation = JStr ''ManyToOne'', as = JStr ''second'',
                           master = JUndefined\<rparr>)])],
       conn = None\<rparr>"



text \<open>
  A relation field whose \<open>type\<close> is no collection: on its own, and in a place that
  another relation field aims at.
\<close>

definition dangling_config :: config where
  "dangling_config = \<lparr>database = example_database, schema =
     [(''A'', [(''f'', relates ''Nope'' ''OneToOne'' ''x'')])]\<rparr>"

definition shadowed_config :: config where
  "shadowed_config = \<lparr>database = example_database, schema =
     [(''A'', [(''f'', relates ''B'' ''OneToOne'' ''g'')]),
      (''B'', [(''g'', relates ''Nope'' ''OneToOne'' ''x'')])]\<rparr>"

text \<open>
  A relation field whose \<open>type\<close> is no collection but a name that every object inherits
  from \<^verbatim>\<open>Object.prototype\<close>.
\<close>

definition builtin_config :: config where
  "builtin_config = \<lparr>database = example_database, schema =
     [(''A'', [(''f'', relates ''toString'' ''OneToOne'' ''x'')])]\<rparr>"

text \<open>
  A relation field whose \<open>type\<close> is no collection, and a relation field of a later
  collection that aims at its place.
\<close>

definition aimed_later_config :: config where
  "aimed_later_config = \<lparr>database = example_database, schema =
     [(''A'', [(''f'', relates ''Nope'' ''OneToOne'' ''x'')]),
      (''C'', [(''h'', relates ''A'' ''OneToOne'' ''f'')])]\<rparr>"

text \<open>
  A driver that leaves bare identifiers as they are, a server that accepts every
  statement, and one that refuses every statement.
\<close>

definition bare_mysql :: mysql where
  "bare_mysql = \<lparr>escapeId = (\<lambda>s. s),
                  escape = (\<lambda>a. case a of Num n \<Rightarrow> (if n = 0 then ''0'' else ''1'')
                                         | Val v \<Rightarrow> to_string v)\<rparr>"

definition willing_server :: server where
  "willing_server = \<lparr>respond = (\<lambda>tr sql. Inr [''old_table'']), finish = (\<lambda>tr. None)\<rparr>"

definition refusing_server :: server where
  "refusing_server = \<lparr>respond = (\<lambda>tr sql. Inl ''ER_DBACCESS_DENIED_ERROR''),
                       finish = (\<lambda>tr. None)\<rparr>"

text \<open>The example document as objects in a store; the document is the object at address 5.\<close>

definition profile_store :: heap where
  "profile_store =
     [FieldCell (plain ''string''),
      FieldCell (relates ''Profile'' ''OneToOne'' ''owner''),
      ObjectCell [(''name'', 0), (''profile'', 1)],
      FieldCell (plain ''string''),
      ObjectCell [(''bio'', 3)],
      ObjectCell [(''User'', 2), (''Profile'', 4)]]"


section \<open>Notions used in the statements about reset and sync\<close>

text \<open>
  A trace is \<open>clean\<close> while the connection is open and no statement has failed.
  \<open>step_ok\<close> is what one awaited step leaves of a clean trace: it returns and the trace
  is still clean, or it throws the error of a failed statement, which is the last event
  of the trace. \<open>release_rule\<close> is what a whole run of \<^verbatim>\<open>reset\<close> or \<^verbatim>\<open>sync\<close>
  satisfies: the connection is released exactly when no statement failed; when a
  statement failed, it is the last event, no statement failed before it, and the run
  throws the error of that very statement; when the connection is released, the
  release is the last event, and the run returns, or throws the error that
  \<^verbatim>\<open>conn.end\<close> reported.
\<close>

definition clean :: "event list \<Rightarrow> bool" where
  "clean tr \<longleftrightarrow> \<not> released tr \<and> \<not> statement_failed tr"

definition step_ok :: "'a completion \<times> event list \<Rightarrow> bool" where
  "step_ok run =
     (case run of
        (Normal _, tr) \<Rightarrow> clean tr
      | (Throw e, tr) \<Rightarrow>
          (\<exists>sql err. last tr = Query sql (Some err) \<and> e = DatabaseError err)
          \<and> \<not> statement_failed (butlast tr) \<and> \<not> released tr \<and> statement_failed tr
      | (Beyond, tr) \<Rightarrow> False)"

definition release_rule :: "unit completion \<times> event list \<Rightarrow> bool" where
  "release_rule run =
     (case run of (out, tr) \<Rightarrow>
        released tr = (\<not> statement_failed tr)
        \<and> (statement_failed tr \<longrightarrow>
              (\<exists>sql err. last tr = Query sql (Some err) \<and> out = Throw (DatabaseError err))
              \<and> \<not> statement_failed (butlast tr))
        \<and> (released tr \<longrightarrow>
              (\<exists>r. last tr = End r
                 \<and> out = (case r of None \<Rightarrow> Normal () | Some err \<Rightarrow> Throw (DatabaseError err)))))"

section \<open>Notions used in the statements about the store\<close>


section \<open>Notions used to compare the two models of the constructor\<close>

text \<open>The addresses of the field descriptors that the collection at an address holds.\<close>

definition field_addrs :: "heap \<Rightarrow> nat \<Rightarrow> nat set" where
  "field_addrs h c = (case read h c of Some (ObjectCell ps) \<Rightarrow> snd ` set ps | _ \<Rightarrow> {})"

text \<open>
  A store represents a schema at the address \<open>root\<close> when the object there has the
  properties \<open>cs\<close>, reading them off the store gives the schema, and no two properties,
  collections or fields share an object: the shape that
  \<^verbatim>\<open>JSON.parse(JSON.stringify(...))\<close> produces, a tree with one object per collection and
  one per field.
\<close>

definition represents :: "heap \<Rightarrow> nat \<Rightarrow> nat object \<Rightarrow> schema \<Rightarrow> bool" where
  "represents h root cs S \<longleftrightarrow>
     read h root = Some (ObjectCell cs) \<and> view_collections h cs = Some S
     \<and> distinct (map fst cs) \<and> distinct (map snd cs) \<and> root \<notin> snd ` set cs
     \<and> (\<forall>c \<in> snd ` set cs. \<forall>ps. read h c = Some (ObjectCell ps)
           \<longrightarrow> distinct (map fst ps) \<and> distinct (map snd ps))
     \<and> (\<forall>c \<in> snd ` set cs. \<forall>c' \<in> snd ` set cs.
           c \<noteq> c' \<longrightarrow> field_addrs h c \<inter> field_addrs h c' = {})"

text \<open>
  A run on the store corresponds to an outcome of the schema model when both complete
  the same way and, on normal completion, the store represents the resulting schema.
\<close>

definition corresponds ::
  "nat \<Rightarrow> nat object \<Rightarrow> unit completion \<times> heap \<Rightarrow> schema completion \<Rightarrow> bool" where
  "corresponds root cs run res =
     (case run of
        (Normal u, h') \<Rightarrow> (\<exists>S'. res = Normal S' \<and> represents h' root cs S')
      | (Throw e, h') \<Rightarrow> res = Throw e
      | (Beyond, h') \<Rightarrow> res = Beyond)"

section \<open>Properties of the relation algebra\<close>

text \<open>
  C3. \<^verbatim>\<open>invRelation\<close> maps OneToOne to OneToOne, ManyToMany to ManyToMany, OneToMany to
  ManyToOne and ManyToOne to OneToMany; applied twice to one of the four kinds it
  gives the kind back; on every other value it throws the error for an unknown
  relation kind, \<^verbatim>\<open>Error("Undefined relation <value>.")\<close>.
\<close>

theorem invRelation_spec:
  "invRelation (JStr ''OneToOne'') = Normal (JStr ''OneToOne'')
   \<and> invRelation (JStr ''ManyToMany'') = Normal (JStr ''ManyToMany'')
   \<and> invRelation (JStr ''OneToMany'') = Normal (JStr ''ManyToOne'')
   \<and> invRelation (JStr ''ManyToOne'') = Normal (JStr ''OneToMany'')
   \<and> (\<forall>k \<in> relation_kinds. \<exists>k'. invRelation k = Normal k' \<and> invRelation k' = Normal k)
   \<and> (\<forall>v. v \<notin> relation_kinds \<longrightarrow>
         invRelation v = Throw (Error (''Undefined relation '' @ to_string v @ ''.'')))"
  by (simp add: invRelation_def relation_kinds_def ONE_TO_ONE_def ONE_TO_MANY_def
      MANY_TO_ONE_def MANY_TO_MANY_def)

theorem invRelation_spec_witness:
  "JStr ''OneToMany'' \<in> relation_kinds
   \<and> invRelation (JStr ''OneToMany'') = Normal (JStr ''ManyToOne'')
   \<and> invRelation (JStr ''ManyToOne'') = Normal (JStr ''OneToMany'')
   \<and> JStr ''Sibling'' \<notin> relation_kinds
   \<and> invRelation (JStr ''Sibling'') = Throw (Error ''Undefined relation Sibling.'')
   \<and> JUndefined \<notin> relation_kinds
   \<and> invRelation JUndefined = Throw (Error ''Undefined relation undefined.'')"
proof -
  have k: "JStr ''OneToMany'' \<in> relation_kinds"
    and s: "JStr ''Sibling'' \<notin> relation_kinds" and u: "JUndefined \<notin> relation_kinds"
    by (simp_all add: relation_kinds_def ONE_TO_ONE_def ONE_TO_MANY_def
        MANY_TO_ONE_def MANY_TO_MANY_def)
  from invRelation_spec have a: "invRelation (JStr ''OneToMany'') = Normal (JStr ''ManyToOne'')"
    and b: "invRelation (JStr ''ManyToOne'') = Normal (JStr ''OneToMany'')"
    and c: "\<forall>v. v \<notin> relation_kinds \<longrightarrow>
         invRelation v = Throw (Error (''Undefined relation '' @ to_string v @ ''.''))"
    by blast+
  from c s have "invRelation (JStr ''Sibling'') = Throw (Error ''Undefined relation Sibling.'')"
    by simp
  moreover from c u have "invRelation JUndefined = Throw (Error ''Undefined relation undefined.'')"
    by simp
  ultimately show ?thesis using k s u a b by blast
qed

section \<open>The statement builder\<close>

text \<open>
  C4 (as amended). \<^verbatim>\<open>stmtCreateTable\<close> applied to the name "users", under an identifier
  escaping that returns "users" unchanged, returns exactly
  \<^verbatim>\<open>CREATE TABLE IF NOT EXISTS users (id int, PRIMARY KEY(id));\<close>: the column type is
  written \<^verbatim>\<open>int\<close>.
\<close>

theorem stmtCreateTable_users:
  assumes "escapeId mysql ''users'' = ''users''"
  shows "stmtCreateTable mysql ''users''
           = ''CREATE TABLE IF NOT EXISTS users (id int, PRIMARY KEY(id));''"
  using assms by (simp add: stmtCreateTable_def)

theorem stmtCreateTable_users_witness:
  "escapeId bare_mysql ''users'' = ''users''
   \<and> stmtCreateTable bare_mysql ''users''
       = ''CREATE TABLE IF NOT EXISTS users (id int, PRIMARY KEY(id));''"
proof -
  have h: "escapeId bare_mysql ''users'' = ''users''"
    by (simp add: bare_mysql_def)
  from stmtCreateTable_users [OF h] h show ?thesis by simp
qed

text \<open>The statement is not the one with \<^verbatim>\<open>INTEGER\<close>.\<close>

theorem stmtCreateTable_users_counterexample:
  "escapeId bare_mysql ''users'' = ''users''
   \<and> stmtCreateTable bare_mysql ''users''
       \<noteq> ''CREATE TABLE IF NOT EXISTS users (id INTEGER, PRIMARY KEY(id));''"
  by (simp add: stmtCreateTable_def bare_mysql_def)

section \<open>Objects: reading after writing\<close>

lemma in_keys_iff: "k \<in> set (map fst ps) \<longleftrightarrow> map_of ps k \<noteq> None"
  by (induction ps) auto

lemma in_keys_image_iff: "k \<in> fst ` set ps \<longleftrightarrow> map_of ps k \<noteq> None"
  by (induction ps) auto

lemma map_of_add_prop:
  "map_of ps k = None \<Longrightarrow> map_of (add_prop k v ps) x = (if x = k then Some v else map_of ps x)"
  by (induction ps) (auto split: if_splits)

lemma map_of_replace:
  "map_of (map (\<lambda>p. if fst p = k then (k, v) else p) ps) x =
     (if x = k then map_option (\<lambda>_. v) (map_of ps k) else map_of ps x)"
  by (induction ps) auto

lemma map_of_set_prop: "map_of (set_prop k v ps) x = (if x = k then Some v else map_of ps x)"
proof (cases "map_of ps k")
  case None
  then have "k \<notin> set (map fst ps)" by (simp only: in_keys_iff not_not)
  then show ?thesis using None by (simp only: set_prop_def if_False map_of_add_prop)
next
  case (Some w)
  then have "k \<in> set (map fst ps)" by (simp only: in_keys_iff) simp
  then show ?thesis using Some by (simp only: set_prop_def if_True map_of_replace) simp
qed

lemma keys_add_prop: "set (map fst (add_prop k v ps)) = insert k (set (map fst ps))"
  by (induction ps) auto

lemma keys_replace:
  "map fst (map (\<lambda>p. if fst p = k then (k, v) else p) ps) = map fst ps"
  by (induction ps) auto

lemma keys_set_prop_same: "k \<in> set (map fst ps) \<Longrightarrow> map fst (set_prop k v ps) = map fst ps"
  unfolding set_prop_def by (simp only: keys_replace if_True)

lemma keys_set_prop: "set (map fst (set_prop k v ps)) = insert k (set (map fst ps))"
proof (cases "k \<in> set (map fst ps)")
  case True
  then show ?thesis by (simp only: keys_set_prop_same insert_absorb)
next
  case False
  then show ?thesis by (simp only: set_prop_def if_False keys_add_prop)
qed

lemma distinct_keys_add_prop:
  "distinct (map fst ps) \<Longrightarrow> k \<notin> set (map fst ps) \<Longrightarrow> distinct (map fst (add_prop k v ps))"
proof (induction ps)
  case Nil
  then show ?case by simp
next
  case (Cons p ps)
  then have "fst p \<notin> set (map fst (add_prop k v ps))"
    by (simp only: keys_add_prop) auto
  with Cons show ?case by auto
qed

lemma distinct_keys_set_prop:
  assumes "distinct (map fst ps)"
  shows "distinct (map fst (set_prop k v ps))"
proof (cases "k \<in> set (map fst ps)")
  case True
  with assms show ?thesis by (simp only: keys_set_prop_same)
next
  case False
  with assms have "distinct (map fst (add_prop k v ps))" by (rule distinct_keys_add_prop)
  with False show ?thesis by (simp only: set_prop_def if_False)
qed

section \<open>The first pass\<close>

lemma init_field_idem: "init_field (init_field f) = init_field f"
  by (cases "nullable f"; cases "relation f") (simp_all add: init_field_def)

lemma init_field_id_field: "init_field id_field = id_field"
  by (simp add: init_field_def id_field_def)

lemma map_of_init_fields:
  "map_of (init_fields ks c) x =
     (if x \<in> set ks then map_option init_field (map_of c x) else map_of c x)"
proof (induction ks arbitrary: c)
  case Nil
  show ?case by simp
next
  case (Cons k ks)
  show ?case
  proof (cases "map_of c k")
    case None
    then show ?thesis using Cons.IH [of c] by auto
  next
    case (Some f)
    then show ?thesis
      using Cons.IH [of "set_prop k (init_field f) c"]
      by (auto simp: map_of_set_prop init_field_idem)
  qed
qed

lemma map_of_init_collection:
  "map_of (init_collection c) x =
     (if x = ''_id'' then Some id_field else map_option init_field (map_of c x))"
proof -
  let ?c = "set_prop ''_id'' id_field c"
  have "map_of (init_fields (map fst ?c) ?c) x = map_option init_field (map_of ?c x)"
    by (cases "map_of ?c x") (simp_all add: map_of_init_fields in_keys_image_iff)
  then show ?thesis
    by (simp add: init_collection_def Let_def map_of_set_prop init_field_id_field)
qed

lemma keys_init_collections: "map fst (init_collections ks s) = map fst s"
proof (induction ks arbitrary: s)
  case Nil
  show ?case by simp
next
  case (Cons k ks)
  show ?case
  proof (cases "map_of s k")
    case None
    then show ?thesis using Cons.IH by simp
  next
    case (Some c)
    then have "k \<in> set (map fst s)" by (simp add: in_keys_image_iff)
    then show ?thesis using Some Cons.IH by (simp add: keys_set_prop_same)
  qed
qed


lemma init_slot_idem: "init_slot (init_collection c) fn = init_slot c fn"
  by (cases "map_of c fn") (simp_all add: init_slot_def map_of_init_collection init_field_idem)

lemma slot_init_collections:
  "slot (init_collections ks s) cn fn =
     (if cn \<in> set ks then (case map_of s cn of None \<Rightarrow> None | Some c \<Rightarrow> init_slot c fn)
      else slot s cn fn)"
proof (induction ks arbitrary: s)
  case Nil
  show ?case by simp
next
  case (Cons k ks)
  show ?case
  proof (cases "map_of s k")
    case None
    then show ?thesis using Cons.IH [of s] by (auto simp: slot_def)
  next
    case (Some c)
    let ?s = "set_prop k (init_collection c) s"
    have m: "map_of ?s x = (if x = k then Some (init_collection c) else map_of s x)" for x
      by (rule map_of_set_prop)
    have "slot (init_collections (k # ks) s) cn fn = slot (init_collections ks ?s) cn fn"
      using Some by simp
    also have "\<dots> = (if cn \<in> set ks
        then (case map_of ?s cn of None \<Rightarrow> None | Some c \<Rightarrow> init_slot c fn)
        else slot ?s cn fn)"
      by (rule Cons.IH)
    also have "\<dots> = (if cn \<in> set (k # ks)
        then (case map_of s cn of None \<Rightarrow> None | Some c \<Rightarrow> init_slot c fn)
        else slot s cn fn)"
      using Some by (simp add: m slot_def init_slot_idem) (simp add: init_slot_def map_of_init_collection)
    finally show ?thesis .
  qed
qed

lemma slot_init:
  "slot (init_collections (map fst doc) doc) cn fn =
     (case map_of doc cn of None \<Rightarrow> None | Some c \<Rightarrow> init_slot c fn)"
proof (cases "map_of doc cn")
  case None
  then have "cn \<notin> set (map fst doc)" by (simp add: in_keys_image_iff)
  then have "slot (init_collections (map fst doc) doc) cn fn = slot doc cn fn"
    by (simp only: slot_init_collections if_False)
  then show ?thesis using None by (simp add: slot_def)
next
  case (Some c)
  then have "cn \<in> set (map fst doc)" by (simp add: in_keys_image_iff)
  then show ?thesis by (simp only: slot_init_collections if_True)
qed

section \<open>The second pass keeps its invariant\<close>

lemma linked_refl: "linked b b"
  by (simp add: linked_def)

lemma derived_not_master: "derived_at b cn fn d \<Longrightarrow> \<not> truthy (master d)"
  by (auto simp: derived_at_def inverse_field_def)

lemma linked_master:
  assumes "linked b s" "slot s cn fn = Some f" "truthy (master f)"
  shows "slot b cn fn = Some f"
proof -
  from assms(1) have "slot s cn fn = slot b cn fn
      \<or> (\<exists>d. slot s cn fn = Some d \<and> derived_at b cn fn d)"
    by (simp add: linked_def)
  then show ?thesis using assms(2,3) derived_not_master by auto
qed

lemma linked_dom: "linked b s \<Longrightarrow> (map_of s cn = None) = (map_of b cn = None)"
  using in_keys_iff [of cn s] in_keys_iff [of cn b] by (auto simp: linked_def)

lemma add_inverse_NormalD:
  assumes "add_inverse cn fn f s = Normal s'"
  shows "\<exists>r target. invRelation (relation f) = Normal r
           \<and> map_of s (to_string (type f)) = Some target
           \<and> s' = set_prop (to_string (type f))
                    (set_prop (to_string (as f)) (inverse_field cn fn r) target) s"
  using assms
  by (auto simp: add_inverse_def Let_def split: completion.splits option.splits if_splits)

lemma slot_written:
  assumes "map_of s t = Some target"
  shows "slot (set_prop t (set_prop a d target) s) x y
           = (if x = t \<and> y = a then Some d else slot s x y)"
  using assms by (simp add: slot_def map_of_set_prop)

lemma keys_written:
  assumes "map_of s t = Some target"
  shows "map fst (set_prop t c s) = map fst s"
proof -
  from assms have "t \<in> set (map fst s)" by (simp add: in_keys_image_iff)
  then show ?thesis by (rule keys_set_prop_same)
qed

lemma add_inverse_linked:
  assumes l: "linked b s" and f: "slot s cn fn = Some f" and m: "truthy (master f)"
    and a: "add_inverse cn fn f s = Normal s'"
  shows "linked b s'"
proof -
  from add_inverse_NormalD [OF a] obtain r target where
    r: "invRelation (relation f) = Normal r"
    and t: "map_of s (to_string (type f)) = Some target"
    and s': "s' = set_prop (to_string (type f))
                    (set_prop (to_string (as f)) (inverse_field cn fn r) target) s"
    by blast
  from linked_master [OF l f m] have b: "slot b cn fn = Some f" .
  have d: "derived_at b (to_string (type f)) (to_string (as f)) (inverse_field cn fn r)"
    unfolding derived_at_def using b m r by blast
  have k: "map fst s' = map fst b"
    using l keys_written [OF t] by (simp add: s' linked_def)
  have "slot s' x y = slot b x y \<or> (\<exists>d. slot s' x y = Some d \<and> derived_at b x y d)" for x y
  proof (cases "x = to_string (type f) \<and> y = to_string (as f)")
    case True
    then show ?thesis using d by (simp add: s' slot_written [OF t])
  next
    case False
    then have "slot s' x y = slot s x y" by (auto simp: s' slot_written [OF t])
    then show ?thesis using l by (simp add: linked_def)
  qed
  then show ?thesis using k by (simp add: linked_def)
qed

text \<open>Loop rules: one induction per loop, for every later invariant.\<close>

lemma link_fields_Cons:
  "link_fields cn (fn # fns) s =
     (case slot s cn fn of
        None \<Rightarrow> link_fields cn fns s
      | Some f \<Rightarrow>
          if truthy (master f) then
            (case add_inverse cn fn f s of
               Normal s' \<Rightarrow> link_fields cn fns s'
             | Throw e \<Rightarrow> Throw e
             | Beyond \<Rightarrow> Beyond)
          else link_fields cn fns s)"
  by (simp add: slot_def split: option.splits)

lemma link_fields_rule:
  assumes step: "\<And>s fn f. P s \<Longrightarrow> slot s cn fn = Some f \<Longrightarrow> truthy (master f) \<Longrightarrow>
      (case add_inverse cn fn f s of Normal s' \<Rightarrow> P s' | Throw e \<Rightarrow> E e | Beyond \<Rightarrow> B)"
    and init: "P s"
  shows "case link_fields cn fns s of Normal s' \<Rightarrow> P s' | Throw e \<Rightarrow> E e | Beyond \<Rightarrow> B"
  using init
proof (induction fns arbitrary: s)
  case Nil
  then show ?case by simp
next
  case (Cons fn fns)
  show ?case
  proof (cases "slot s cn fn")
    case None
    then have "link_fields cn (fn # fns) s = link_fields cn fns s"
      by (simp only: link_fields_Cons) simp
    then show ?thesis using Cons.IH [OF Cons.prems] by simp
  next
    case (Some f)
    show ?thesis
    proof (cases "truthy (master f)")
      case False
      with Some have "link_fields cn (fn # fns) s = link_fields cn fns s"
        by (simp only: link_fields_Cons) simp
      then show ?thesis using Cons.IH [OF Cons.prems] by simp
    next
      case True
      note st = step [OF Cons.prems Some True]
      show ?thesis
      proof (cases "add_inverse cn fn f s")
        case (Normal s1)
        with Some True have "link_fields cn (fn # fns) s = link_fields cn fns s1"
          by (simp only: link_fields_Cons) simp
        moreover from st Normal have "P s1" by simp
        ultimately show ?thesis using Cons.IH [of s1] by simp
      next
        case (Throw e)
        with Some True have "link_fields cn (fn # fns) s = Throw e"
          by (simp only: link_fields_Cons) simp
        then show ?thesis using st Throw by simp
      next
        case Beyond
        with Some True have "link_fields cn (fn # fns) s = Beyond"
          by (simp only: link_fields_Cons) simp
        then show ?thesis using st Beyond by simp
      qed
    qed
  qed
qed

lemma link_collections_rule:
  assumes step: "\<And>s cn fn f. P s \<Longrightarrow> slot s cn fn = Some f \<Longrightarrow> truthy (master f) \<Longrightarrow>
      (case add_inverse cn fn f s of Normal s' \<Rightarrow> P s' | Throw e \<Rightarrow> E e | Beyond \<Rightarrow> B)"
    and init: "P s"
  shows "case link_collections cns s of Normal s' \<Rightarrow> P s' | Throw e \<Rightarrow> E e | Beyond \<Rightarrow> B"
  using init
proof (induction cns arbitrary: s)
  case Nil
  then show ?case by simp
next
  case (Cons cn cns)
  show ?case
  proof (cases "map_of s cn")
    case None
    then show ?thesis using Cons.IH [OF Cons.prems] by simp
  next
    case (Some c)
    have inner: "case link_fields cn (map fst c) s of
        Normal s' \<Rightarrow> P s' | Throw e \<Rightarrow> E e | Beyond \<Rightarrow> B"
      by (rule link_fields_rule [where P = P, OF step Cons.prems])
    show ?thesis
    proof (cases "link_fields cn (map fst c) s")
      case (Normal s1)
      with inner have "P s1" by simp
      then show ?thesis using Some Normal Cons.IH [of s1] by simp
    next
      case (Throw e)
      then show ?thesis using Some inner by simp
    next
      case Beyond
      then show ?thesis using Some inner by simp
    qed
  qed
qed

lemma link_fields_preserve:
  assumes step: "\<And>s fn f s'. P s \<Longrightarrow> slot s cn fn = Some f \<Longrightarrow> truthy (master f) \<Longrightarrow>
      add_inverse cn fn f s = Normal s' \<Longrightarrow> P s'"
    and init: "P s" and run: "link_fields cn fns s = Normal s'"
  shows "P s'"
proof -
  have "case link_fields cn fns s of Normal s' \<Rightarrow> P s' | Throw e \<Rightarrow> True | Beyond \<Rightarrow> True"
  proof (rule link_fields_rule [where P = P])
    fix s fn f
    assume "P s" "slot s cn fn = Some f" "truthy (master f)"
    then show "case add_inverse cn fn f s of Normal s' \<Rightarrow> P s' | Throw e \<Rightarrow> True | Beyond \<Rightarrow> True"
      using step by (cases "add_inverse cn fn f s") simp_all
  qed (rule init)
  then show ?thesis using run by simp
qed





section \<open>Master fields that the second pass reaches\<close>

lemma same_keys_dom:
  assumes "map fst s = map fst b"
  shows "(map_of s x = None) = (map_of b x = None)"
proof -
  have "(map_of s x \<noteq> None) = (x \<in> set (map fst s))" by (simp only: in_keys_iff)
  also have "\<dots> = (x \<in> set (map fst b))" by (simp only: assms)
  also have "\<dots> = (map_of b x \<noteq> None)" by (simp only: in_keys_iff)
  finally show ?thesis by blast
qed

lemma slot_entries: "slot doc cn fn = Some f \<Longrightarrow> (cn, fn, f) \<in> set (entries doc)"
  by (auto simp: slot_def entries_def split: option.splits dest!: map_of_SomeD)

lemma init_field_attrs:
  "type (init_field f) = type f" "as (init_field f) = as f"
  "relation (init_field f) = relation f"
  "truthy (master (init_field f)) = declared_master f"
  by (simp_all add: init_field_def declared_master_def Let_def)

lemma aim_init_field: "aim (init_field f) = aim f"
  by (simp add: aim_def init_field_attrs)

lemma id_field_not_master: "\<not> truthy (master id_field)"
  by (simp add: id_field_def)


lemma resolve_start: "resolve doc = link_collections (map fst (start doc)) (start doc)"
  by (simp add: resolve_def start_def Let_def)

lemma start_slot:
  "slot (start doc) cn fn =
     (case map_of doc cn of None \<Rightarrow> None | Some c \<Rightarrow> init_slot c fn)"
  unfolding start_def by (rule slot_init)

lemma start_master:
  assumes "slot (start doc) cn fn = Some g" "truthy (master g)"
  shows "\<exists>g0. (cn, fn, g0) \<in> set (master_fields doc) \<and> slot doc cn fn = Some g0
            \<and> g = init_field g0"
proof -
  from assms(1) obtain c where c: "map_of doc cn = Some c" and i: "init_slot c fn = Some g"
    by (auto simp: start_slot split: option.splits)
  from i assms(2) have n: "fn \<noteq> ''_id''"
    using id_field_not_master by (auto simp: init_slot_def)
  with i obtain g0 where g0: "map_of c fn = Some g0" and g: "g = init_field g0"
    by (auto simp: init_slot_def)
  from c g0 have s: "slot doc cn fn = Some g0" by (simp add: slot_def)
  from assms(2) g have "declared_master g0" by (simp add: init_field_attrs)
  with n slot_entries [OF s] have "(cn, fn, g0) \<in> set (master_fields doc)"
    by (simp add: master_fields_def)
  with s g show ?thesis by blast
qed

lemma start_declared:
  assumes "slot doc A f = Some F0" "f \<noteq> ''_id''"
  shows "slot (start doc) A f = Some (init_field F0)"
  unfolding start_slot using assms
  by (auto simp: slot_def init_slot_def split: option.splits)




section \<open>Running the constructor on the examples\<close>

lemmas run_defs = constructor_def resolve_def init_collection_def init_field_def id_field_def
  add_inverse_def inverse_field_def invRelation_def ONE_TO_ONE_def ONE_TO_MANY_def
  MANY_TO_ONE_def MANY_TO_MANY_def set_prop_def precedes_def array_index_def is_digit_def
  object_prototype_names_def Let_def

lemmas doc_defs = slot_def entries_def master_fields_def declared_master_def aim_def

lemmas example_defs = plain_def relates_def example_database_def

lemma profile_run: "constructor profile_config = Normal profile_service"
  by (simp add: profile_config_def profile_service_def example_defs run_defs)

lemma twin_run: "constructor twin_config = Normal twin_service"
  by (simp add: twin_config_def twin_service_def example_defs run_defs)

section \<open>What a resolved schema holds\<close>

lemma constructor_NormalD:
  "constructor config = Normal this \<Longrightarrow> resolve (schema config) = Normal (r_collections this)
     \<and> conn this = None"
  by (auto simp: constructor_def Let_def split: completion.splits)


lemma start_dom: "(map_of (start doc) x = None) = (map_of doc x = None)"
proof -
  have "map fst (start doc) = map fst doc"
    unfolding start_def by (rule keys_init_collections)
  then show ?thesis by (rule same_keys_dom)
qed


lemma add_inverse_errors:
  "add_inverse cn fn f s = Throw e \<Longrightarrow>
     e = TypeError \<or> e = Error (''Undefined relation '' @ to_string (relation f) @ ''.'')"
  by (auto simp: add_inverse_def invRelation_def Let_def
      split: completion.splits option.splits if_splits)

lemma resolve_errors:
  "case resolve doc of
     Normal S \<Rightarrow> True
   | Throw e \<Rightarrow> e = TypeError \<or> (\<exists>v. e = Error (''Undefined relation '' @ to_string v @ ''.''))
   | Beyond \<Rightarrow> True"
  unfolding resolve_start
proof (rule link_collections_rule [where P = "\<lambda>s. True"])
  fix s :: schema and cn fn f
  show "case add_inverse cn fn f s of
      Normal s' \<Rightarrow> True
    | Throw e \<Rightarrow> e = TypeError \<or> (\<exists>v. e = Error (''Undefined relation '' @ to_string v @ ''.''))
    | Beyond \<Rightarrow> True"
    using add_inverse_errors [of cn fn f s]
    by (cases "add_inverse cn fn f s") auto
qed simp



lemma invRelation_kinds: "v \<in> relation_kinds \<Longrightarrow> \<exists>r. invRelation v = Normal r"
  by (auto simp: relation_kinds_def invRelation_def)

section \<open>Master fields in the order of the document\<close>

text \<open>
  On a document that keeps clear of the built-ins the constructor returns or throws.
\<close>

lemma clear_of_builtinsD:
  assumes "clear_of_builtins doc" "(cn, fn, g) \<in> set (master_fields doc)"
  shows "(map_of doc (to_string (type g)) \<noteq> None
            \<or> to_string (type g) \<notin> set object_prototype_names)
         \<and> to_string (as g) \<noteq> ''__proto__''"
proof -
  from assms have "(to_string (type g) \<in> set (map fst doc)
            \<or> to_string (type g) \<notin> set object_prototype_names)
         \<and> to_string (as g) \<noteq> ''__proto__''"
    unfolding clear_of_builtins_def list_all_iff by fastforce
  then show ?thesis using in_keys_iff [of "to_string (type g)" doc] by blast
qed

lemma resolve_clear:
  assumes clear: "clear_of_builtins doc"
  shows "resolve doc \<noteq> Beyond"
proof -
  have "case resolve doc of
      Normal s' \<Rightarrow> linked (start doc) s' | Throw e \<Rightarrow> True | Beyond \<Rightarrow> False"
    unfolding resolve_start
  proof (rule link_collections_rule [where P = "linked (start doc)"])
    fix s cn fn g
    assume l: "linked (start doc) s" and g: "slot s cn fn = Some g"
      and mg: "truthy (master g)"
    from start_master [OF linked_master [OF l g mg] mg] obtain g0 where
      g0: "(cn, fn, g0) \<in> set (master_fields doc)" "g = init_field g0" by blast
    from clear_of_builtinsD [OF clear g0(1)] g0(2)
    have t: "map_of doc (to_string (type g)) \<noteq> None
        \<or> to_string (type g) \<notin> set object_prototype_names"
      and a: "to_string (as g) \<noteq> ''__proto__''"
      by (simp_all add: init_field_attrs)
    from t linked_dom [OF l, of "to_string (type g)"] start_dom [of doc "to_string (type g)"]
    have t': "map_of s (to_string (type g)) \<noteq> None
        \<or> to_string (type g) \<notin> set object_prototype_names" by simp
    show "case add_inverse cn fn g s of
        Normal s' \<Rightarrow> linked (start doc) s' | Throw e \<Rightarrow> True | Beyond \<Rightarrow> False"
    proof (cases "add_inverse cn fn g s")
      case (Normal s')
      with add_inverse_linked [OF l g mg] show ?thesis by simp
    next
      case (Throw e)
      then show ?thesis by simp
    next
      case Beyond
      with t' a show ?thesis
        by (auto simp: add_inverse_def invRelation_def Let_def
            split: completion.splits option.splits if_splits)
    qed
  qed (rule linked_refl)
  then show ?thesis by (cases "resolve doc") simp_all
qed

lemma constructor_clear:
  assumes "clear_of_builtins (schema config)"
  shows "(\<exists>this. constructor config = Normal this) \<or> (\<exists>e. constructor config = Throw e)"
  using resolve_clear [OF assms]
  by (cases "resolve (schema config)") (simp_all add: constructor_def Let_def)

text \<open>
  A document that does not keep clear: the \<open>type\<close> of its relation field reaches the
  built-in function \<^verbatim>\<open>toString\<close>. The program writes the inverse field to that function
  and returns a schema that has no inverse field; the embedding does not follow it.
\<close>

lemma builtin_config_beyond:
  "\<not> clear_of_builtins (schema builtin_config) \<and> constructor builtin_config = Beyond"
  by (simp add: builtin_config_def clear_of_builtins_def example_defs doc_defs run_defs)

text \<open>When every master field has one of the four relation kinds, only the TypeError is left.\<close>

lemma resolve_throws_TypeError:
  assumes kinds: "\<forall>(cn, fn, g) \<in> set (master_fields doc). relation g \<in> relation_kinds"
    and run: "resolve doc = Throw e"
  shows "e = TypeError"
proof -
  have "case resolve doc of
      Normal s' \<Rightarrow> linked (start doc) s' | Throw e \<Rightarrow> e = TypeError | Beyond \<Rightarrow> True"
    unfolding resolve_start
  proof (rule link_collections_rule [where P = "linked (start doc)"])
    fix s cn fn g
    assume l: "linked (start doc) s" and g: "slot s cn fn = Some g"
      and mg: "truthy (master g)"
    from start_master [OF linked_master [OF l g mg] mg] obtain g0 where
      g0: "(cn, fn, g0) \<in> set (master_fields doc)" "g = init_field g0" by blast
    with kinds have "relation g \<in> relation_kinds" by (auto simp: init_field_attrs)
    from invRelation_kinds [OF this] obtain r where r: "invRelation (relation g) = Normal r" ..
    show "case add_inverse cn fn g s of
        Normal s' \<Rightarrow> linked (start doc) s' | Throw e \<Rightarrow> e = TypeError | Beyond \<Rightarrow> True"
    proof (cases "add_inverse cn fn g s")
      case (Normal s')
      with add_inverse_linked [OF l g mg] show ?thesis by simp
    next
      case (Throw e)
      with r show ?thesis
        by (auto simp: add_inverse_def Let_def split: option.splits if_splits)
    next
      case Beyond
      then show ?thesis by simp
    qed
  qed (rule linked_refl)
  with run show ?thesis by simp
qed

subsection \<open>The writes keep the order of the names\<close>

lemma filter_keys_add_prop:
  "\<not> Q k \<Longrightarrow> filter Q (map fst (add_prop k v ps)) = filter Q (map fst ps)"
  by (induction ps) simp_all

lemma extends_keys_refl: "distinct (map fst c) \<Longrightarrow> extends_keys c c"
  by (simp add: extends_keys_def)

lemma extends_keys_subset:
  assumes "extends_keys c0 c"
  shows "set (map fst c0) \<subseteq> set (map fst c)"
proof -
  from assms have "set (map fst c0) = set (filter (\<lambda>k. k \<in> set (map fst c0)) (map fst c))"
    by (simp only: extends_keys_def)
  then show ?thesis by auto
qed

lemma extends_keys_set_prop:
  assumes "extends_keys c0 c"
  shows "extends_keys c0 (set_prop k v c)"
proof (cases "k \<in> set (map fst c)")
  case True
  with assms show ?thesis by (simp only: extends_keys_def keys_set_prop_same)
next
  case False
  with extends_keys_subset [OF assms] have "k \<notin> set (map fst c0)" by blast
  then have "filter (\<lambda>k. k \<in> set (map fst c0)) (map fst (add_prop k v c))
      = filter (\<lambda>k. k \<in> set (map fst c0)) (map fst c)"
    by (rule filter_keys_add_prop)
  moreover from assms have "distinct (map fst (set_prop k v c))"
    by (simp only: extends_keys_def distinct_keys_set_prop)
  ultimately show ?thesis using assms False
    by (simp add: extends_keys_def set_prop_def)
qed

lemma extends_keys_init_fields:
  "extends_keys c0 c \<Longrightarrow> extends_keys c0 (init_fields ks c)"
proof (induction ks arbitrary: c)
  case Nil
  then show ?case by simp
next
  case (Cons k ks)
  show ?case
  proof (cases "map_of c k")
    case None
    then show ?thesis using Cons by simp
  next
    case (Some f)
    from Cons.prems have "extends_keys c0 (set_prop k (init_field f) c)"
      by (rule extends_keys_set_prop)
    then show ?thesis using Some Cons.IH by simp
  qed
qed

lemma extends_keys_init_collection:
  "extends_keys c0 c \<Longrightarrow> extends_keys c0 (init_collection c)"
  by (simp add: init_collection_def Let_def extends_keys_init_fields extends_keys_set_prop)

lemma keeps_order_set_prop:
  assumes "keeps_order doc s" "map_of s k = Some c"
    and "\<And>c0. extends_keys c0 c \<Longrightarrow> extends_keys c0 c'"
  shows "keeps_order doc (set_prop k c' s)"
  unfolding keeps_order_def
proof (intro allI impI)
  fix cn c0
  assume "map_of doc cn = Some c0"
  with assms(1) obtain d where d: "map_of s cn = Some d" "extends_keys c0 d"
    by (auto simp: keeps_order_def)
  show "\<exists>c. map_of (set_prop k c' s) cn = Some c \<and> extends_keys c0 c"
  proof (cases "cn = k")
    case True
    with d assms(2) have "extends_keys c0 c" by simp
    then have "extends_keys c0 c'" by (rule assms(3))
    with True show ?thesis by (simp add: map_of_set_prop)
  next
    case False
    with d show ?thesis by (simp add: map_of_set_prop)
  qed
qed

lemma keeps_order_init_collections:
  "keeps_order doc s \<Longrightarrow> keeps_order doc (init_collections ks s)"
proof (induction ks arbitrary: s)
  case Nil
  then show ?case by simp
next
  case (Cons k ks)
  show ?case
  proof (cases "map_of s k")
    case None
    then show ?thesis using Cons by simp
  next
    case (Some c)
    have "keeps_order doc (set_prop k (init_collection c) s)"
      using Cons.prems Some by (rule keeps_order_set_prop) (rule extends_keys_init_collection)
    then show ?thesis using Some Cons.IH by simp
  qed
qed

lemma plain_objects_collection:
  assumes "plain_objects doc" "map_of doc cn = Some c"
  shows "distinct (map fst c)"
proof -
  from assms(2) have "(cn, c) \<in> set doc" by (rule map_of_SomeD)
  with assms(1) show ?thesis by (auto simp: plain_objects_def list_all_iff)
qed

lemma keeps_order_start:
  assumes "plain_objects doc"
  shows "keeps_order doc (start doc)"
proof -
  have "keeps_order doc doc"
    using plain_objects_collection [OF assms]
    by (simp add: keeps_order_def extends_keys_refl)
  then show ?thesis unfolding start_def by (rule keeps_order_init_collections)
qed

lemma keeps_order_add_inverse:
  assumes "keeps_order doc s" "add_inverse cn fn g s = Normal s'"
  shows "keeps_order doc s'"
proof -
  from add_inverse_NormalD [OF assms(2)] obtain r target where
    t: "map_of s (to_string (type g)) = Some target"
    and s': "s' = set_prop (to_string (type g))
                    (set_prop (to_string (as g)) (inverse_field cn fn r) target) s"
    by blast
  show ?thesis
    unfolding s' using assms(1) t
    by (rule keeps_order_set_prop) (rule extends_keys_set_prop)
qed

lemma takeWhile_filter:
  "P x \<Longrightarrow> takeWhile (\<lambda>k. k \<noteq> x) (filter P xs) = filter P (takeWhile (\<lambda>k. k \<noteq> x) xs)"
proof (induction xs)
  case Nil
  then show ?case by simp
next
  case (Cons a xs)
  then show ?case by (cases "a = x") auto
qed

lemma takeWhile_split:
  "x \<notin> set pre \<Longrightarrow> takeWhile (\<lambda>k. k \<noteq> x) (pre @ x # post) = pre"
  by (induction pre) auto

lemma extends_keys_before:
  assumes e: "extends_keys c0 c" and f: "f \<in> set (map fst c0)"
    and k: "map fst c = pre @ f # post"
  shows "set (takeWhile (\<lambda>k. k \<noteq> f) (map fst c0)) = set pre \<inter> set (map fst c0)"
proof -
  from e k have d: "distinct (pre @ f # post)" by (simp add: extends_keys_def)
  then have n: "f \<notin> set pre" by simp
  let ?P = "\<lambda>k. k \<in> set (map fst c0)"
  from e have "map fst c0 = filter ?P (map fst c)" by (simp only: extends_keys_def)
  then have "takeWhile (\<lambda>k. k \<noteq> f) (map fst c0)
      = takeWhile (\<lambda>k. k \<noteq> f) (filter ?P (map fst c))"
    by (rule arg_cong [where f = "takeWhile (\<lambda>k. k \<noteq> f)"])
  also have "\<dots> = filter ?P (takeWhile (\<lambda>k. k \<noteq> f) (map fst c))"
    using f by (rule takeWhile_filter [where P = ?P])
  also have "\<dots> = filter ?P pre" by (simp only: k takeWhile_split [OF n])
  finally show ?thesis by auto
qed

subsection \<open>Splitting a loop, and steps that know where they are\<close>

lemma link_fields_append:
  "link_fields cn (xs @ ys) s =
     (case link_fields cn xs s of
        Normal s1 \<Rightarrow> link_fields cn ys s1 | Throw e \<Rightarrow> Throw e | Beyond \<Rightarrow> Beyond)"
proof (induction xs arbitrary: s)
  case Nil
  show ?case by simp
next
  case (Cons x xs)
  show ?case
  proof (cases "slot s cn x")
    case None
    then show ?thesis
      using Cons.IH [of s] by (simp only: append_Cons link_fields_Cons) simp
  next
    case (Some f)
    show ?thesis
    proof (cases "truthy (master f)")
      case False
      with Some show ?thesis
        using Cons.IH [of s] by (simp only: append_Cons link_fields_Cons) simp
    next
      case True
      show ?thesis
      proof (cases "add_inverse cn x f s")
        case (Normal s1)
        with Some True show ?thesis
          using Cons.IH [of s1] by (simp only: append_Cons link_fields_Cons) simp
      next
        case (Throw e)
        with Some True show ?thesis by (simp only: append_Cons link_fields_Cons) simp
      next
        case Beyond
        with Some True show ?thesis by (simp only: append_Cons link_fields_Cons) simp
      qed
    qed
  qed
qed

lemma link_collections_append:
  "link_collections (xs @ ys) s =
     (case link_collections xs s of
        Normal s1 \<Rightarrow> link_collections ys s1 | Throw e \<Rightarrow> Throw e | Beyond \<Rightarrow> Beyond)"
proof (induction xs arbitrary: s)
  case Nil
  show ?case by simp
next
  case (Cons x xs)
  show ?case
  proof (cases "map_of s x")
    case None
    then show ?thesis using Cons.IH [of s] by simp
  next
    case (Some c)
    show ?thesis
    proof (cases "link_fields x (map fst c) s")
      case (Normal s1)
      with Some show ?thesis using Cons.IH [of s1] by simp
    next
      case (Throw e)
      with Some show ?thesis by simp
    next
      case Beyond
      with Some show ?thesis by simp
    qed
  qed
qed

lemma link_fields_within:
  assumes run: "link_fields cn fns s = Normal s'" and init: "P s"
    and step: "\<And>s fn f t. P s \<Longrightarrow> fn \<in> set fns \<Longrightarrow> slot s cn fn = Some f \<Longrightarrow>
      truthy (master f) \<Longrightarrow> add_inverse cn fn f s = Normal t \<Longrightarrow> P t"
  shows "P s'"
  using run init step
proof (induction fns arbitrary: s)
  case Nil
  then show ?case by simp
next
  case (Cons fn fns)
  have step': "P t" if "P s" "x \<in> set fns" "slot s cn x = Some f" "truthy (master f)"
    "add_inverse cn x f s = Normal t" for s x f t
  proof (rule Cons.prems(3) [OF that(1) _ that(3) that(4) that(5)])
    from that(2) show "x \<in> set (fn # fns)" by simp
  qed
  show ?case
  proof (cases "slot s cn fn")
    case None
    with Cons.prems(1) have "link_fields cn fns s = Normal s'"
      by (simp only: link_fields_Cons) simp
    then show ?thesis using Cons.prems(2) step' by (rule Cons.IH)
  next
    case (Some f)
    show ?thesis
    proof (cases "truthy (master f)")
      case False
      with Some Cons.prems(1) have "link_fields cn fns s = Normal s'"
        by (simp only: link_fields_Cons) simp
      then show ?thesis using Cons.prems(2) step' by (rule Cons.IH)
    next
      case True
      with Some Cons.prems(1) obtain s1 where
        a: "add_inverse cn fn f s = Normal s1" and r: "link_fields cn fns s1 = Normal s'"
        by (simp only: link_fields_Cons) (auto split: completion.splits)
      have "P s1"
      proof (rule Cons.prems(3) [OF Cons.prems(2) _ Some True a])
        show "fn \<in> set (fn # fns)" by simp
      qed
      with r show ?thesis using step' by (rule Cons.IH)
    qed
  qed
qed

lemma link_collections_within:
  assumes run: "link_collections cns s = Normal s'" and init: "P s"
    and step: "\<And>s cn fn f t. P s \<Longrightarrow> cn \<in> set cns \<Longrightarrow> slot s cn fn = Some f \<Longrightarrow>
      truthy (master f) \<Longrightarrow> add_inverse cn fn f s = Normal t \<Longrightarrow> P t"
  shows "P s'"
  using run init step
proof (induction cns arbitrary: s)
  case Nil
  then show ?case by simp
next
  case (Cons cn cns)
  have step': "P t" if "P s" "x \<in> set cns" "slot s x fn = Some f" "truthy (master f)"
    "add_inverse x fn f s = Normal t" for s x fn f t
  proof (rule Cons.prems(3) [OF that(1) _ that(3) that(4) that(5)])
    from that(2) show "x \<in> set (cn # cns)" by simp
  qed
  show ?case
  proof (cases "map_of s cn")
    case None
    with Cons.prems(1) have "link_collections cns s = Normal s'" by simp
    then show ?thesis using Cons.prems(2) step' by (rule Cons.IH)
  next
    case (Some c)
    with Cons.prems(1) obtain s1 where
      a: "link_fields cn (map fst c) s = Normal s1" and r: "link_collections cns s1 = Normal s'"
      by (auto split: completion.splits)
    have "P s1"
    proof (rule link_fields_preserve [where P = P, OF _ Cons.prems(2) a])
      fix s fn f t
      assume h: "P s" "slot s cn fn = Some f" "truthy (master f)"
        "add_inverse cn fn f s = Normal t"
      show "P t"
      proof (rule Cons.prems(3) [OF h(1) _ h(2) h(3) h(4)])
        show "cn \<in> set (cn # cns)" by simp
      qed
    qed
    with r show ?thesis using step' by (rule Cons.IH)
  qed
qed

subsection \<open>The second pass reaches a master field that nothing earlier has replaced\<close>

text \<open>
  A run that returns comes to the field \<open>f\<close> of collection \<open>A\<close> while it is still the
  master field of the document, when no master field at an earlier place aims at it.
  The run is then cut in three: the steps before, the step that writes the inverse of
  \<open>f\<close>, and the steps after, which are at places that are neither \<open>(A, f)\<close> nor earlier.
\<close>

lemma earlier_collection:
  "cn \<in> set (takeWhile (\<lambda>k. k \<noteq> A) (map fst doc)) \<Longrightarrow> earlier doc (cn, fn) (A, f)"
  by (simp add: earlier_def)

lemma earlier_field:
  "map_of doc A = Some c0 \<Longrightarrow> fn \<in> set (takeWhile (\<lambda>k. k \<noteq> f) (map fst c0)) \<Longrightarrow>
     earlier doc (A, fn) (A, f)"
  by (simp add: earlier_def)

lemma not_earlier_field:
  assumes "map_of doc A = Some c0" "fn \<notin> set (takeWhile (\<lambda>k. k \<noteq> f) (map fst c0))"
  shows "\<not> earlier doc (A, fn) (A, f)"
proof -
  have "A \<notin> set (takeWhile (\<lambda>k. k \<noteq> A) (map fst doc))"
    using set_takeWhileD [of A "\<lambda>k. k \<noteq> A" "map fst doc"] by blast
  with assms show ?thesis by (simp add: earlier_def)
qed

lemma not_earlier_collection:
  "cn \<noteq> A \<Longrightarrow> cn \<notin> set (takeWhile (\<lambda>k. k \<noteq> A) (map fst doc)) \<Longrightarrow>
     \<not> earlier doc (cn, fn) (A, f)"
  by (simp add: earlier_def)

lemma written_elsewhere:
  assumes a: "add_inverse cn fn g s = Normal t" and n: "aim g \<noteq> (x, y)"
  shows "slot t x y = slot s x y"
proof -
  from add_inverse_NormalD [OF a] obtain r target where
    t: "map_of s (to_string (type g)) = Some target"
    and s': "t = set_prop (to_string (type g))
                    (set_prop (to_string (as g)) (inverse_field cn fn r) target) s"
    by blast
  from n show ?thesis by (auto simp: s' slot_written [OF t] aim_def)
qed

lemma written_there:
  assumes a: "add_inverse cn fn g s = Normal t"
  shows "\<exists>r. invRelation (relation g) = Normal r
           \<and> slot t (to_string (type g)) (to_string (as g)) = Some (inverse_field cn fn r)"
proof -
  from add_inverse_NormalD [OF a] obtain r target where
    r: "invRelation (relation g) = Normal r"
    and t: "map_of s (to_string (type g)) = Some target"
    and s': "t = set_prop (to_string (type g))
                    (set_prop (to_string (as g)) (inverse_field cn fn r) target) s"
    by blast
  from r show ?thesis by (auto simp: s' slot_written [OF t])
qed

lemma resolve_reach:
  assumes run: "resolve doc = Normal S" and plain: "plain_objects doc"
    and F0: "slot doc A f = Some F0" "f \<noteq> ''_id''" and m: "declared_master F0"
    and H1: "\<forall>(cn, fn, g) \<in> set (master_fields doc).
        aim g = (A, f) \<longrightarrow> \<not> earlier doc (cn, fn) (A, f)"
    and goal: "\<And>t1 t2 s2 fpost cpost.
        linked (start doc) t1 \<Longrightarrow> slot t1 A f = Some (init_field F0) \<Longrightarrow>
        add_inverse A f (init_field F0) t1 = Normal t2 \<Longrightarrow>
        link_fields A fpost t2 = Normal s2 \<Longrightarrow> link_collections cpost s2 = Normal S \<Longrightarrow>
        \<forall>fn \<in> set fpost. fn \<noteq> f \<and> \<not> earlier doc (A, fn) (A, f) \<Longrightarrow>
        \<forall>cn \<in> set cpost. cn \<noteq> A \<and> (\<forall>fn. \<not> earlier doc (cn, fn) (A, f)) \<Longrightarrow> thesis"
  shows thesis
proof -
  let ?D = "start doc" and ?F = "init_field F0"
  let ?I = "\<lambda>s. linked ?D s \<and> keeps_order doc s \<and> slot s A f = Some ?F"
  from F0(1) obtain c0 where c0: "map_of doc A = Some c0" and f0: "map_of c0 f = Some F0"
    by (auto simp: slot_def split: option.splits)
  from c0 have "A \<in> set (map fst doc)" by (simp add: in_keys_image_iff)
  from split_list_first [OF this] obtain cpre cpost where
    cns: "map fst doc = cpre @ A # cpost" and ncpre: "A \<notin> set cpre" by blast
  from plain have "distinct (map fst doc)" by (simp add: plain_objects_def)
  then have dc: "distinct (cpre @ A # cpost)" by (simp only: cns)
  have tw: "takeWhile (\<lambda>k. k \<noteq> A) (map fst doc) = cpre"
    by (simp only: cns takeWhile_split [OF ncpre])
  have keys: "map fst ?D = map fst doc"
    unfolding start_def by (rule keys_init_collections)
  from run have "link_collections (cpre @ A # cpost) ?D = Normal S"
    by (simp only: resolve_start keys cns)
  then obtain s1 where r1: "link_collections cpre ?D = Normal s1"
    and r2: "link_collections (A # cpost) s1 = Normal S"
    by (simp only: link_collections_append) (auto split: completion.splits)
  have I0: "?I ?D"
    using linked_refl keeps_order_start [OF plain] start_declared [OF F0] by blast
  have Istep: "?I t" if I: "?I s" and e: "earlier doc (cn, fn) (A, f)"
    and g: "slot s cn fn = Some g" and mg: "truthy (master g)"
    and a: "add_inverse cn fn g s = Normal t" for s cn fn g t
  proof -
    from I have l: "linked ?D s" and k: "keeps_order doc s" and F: "slot s A f = Some ?F"
      by blast+
    from start_master [OF linked_master [OF l g mg] mg] obtain g0 where
      g0: "(cn, fn, g0) \<in> set (master_fields doc)" "g = init_field g0" by blast
    from H1 g0(1) e have "aim g0 \<noteq> (A, f)" by blast
    then have "aim g \<noteq> (A, f)" by (simp add: g0(2) aim_init_field)
    from written_elsewhere [OF a this] F have "slot t A f = Some ?F" by simp
    with add_inverse_linked [OF l g mg a] keeps_order_add_inverse [OF k a]
    show ?thesis by blast
  qed
  have I1: "?I s1"
  proof (rule link_collections_within [where P = ?I, OF r1 I0])
    fix s cn fn g t
    assume I: "?I s" and cn: "cn \<in> set cpre" and g: "slot s cn fn = Some g"
      and mg: "truthy (master g)" and a: "add_inverse cn fn g s = Normal t"
    from cn have "earlier doc (cn, fn) (A, f)"
      by (intro earlier_collection) (simp only: tw)
    with I show "?I t" using g mg a by (rule Istep)
  qed
  then have F1: "slot s1 A f = Some ?F" and k1: "keeps_order doc s1" by blast+
  from F1 obtain c where c: "map_of s1 A = Some c" and fc: "map_of c f = Some ?F"
    by (auto simp: slot_def split: option.splits)
  from r2 c obtain s2 where r3: "link_fields A (map fst c) s1 = Normal s2"
    and r4: "link_collections cpost s2 = Normal S"
    by (auto split: completion.splits)
  from k1 c0 obtain c' where "map_of s1 A = Some c'" "extends_keys c0 c'"
    unfolding keeps_order_def by blast
  with c have ext: "extends_keys c0 c" by simp
  from f0 have fk0: "f \<in> set (map fst c0)" by (simp add: in_keys_image_iff)
  from fc have "f \<in> set (map fst c)" by (simp add: in_keys_image_iff)
  from split_list_first [OF this] obtain fpre fpost where
    fns: "map fst c = fpre @ f # fpost" and nfpre: "f \<notin> set fpre" by blast
  from ext have df: "distinct (fpre @ f # fpost)" by (simp add: extends_keys_def fns)
  have before: "set (takeWhile (\<lambda>k. k \<noteq> f) (map fst c0)) = set fpre \<inter> set (map fst c0)"
    using ext fk0 fns by (rule extends_keys_before)
  from r3 obtain t1 where r5: "link_fields A fpre s1 = Normal t1"
    and r6: "link_fields A (f # fpost) t1 = Normal s2"
    by (simp only: fns link_fields_append) (auto split: completion.splits)
  have I2: "?I t1"
  proof (rule link_fields_within [where P = ?I, OF r5 I1])
    fix s fn g t
    assume I: "?I s" and fn: "fn \<in> set fpre" and g: "slot s A fn = Some g"
      and mg: "truthy (master g)" and a: "add_inverse A fn g s = Normal t"
    from I have l: "linked ?D s" by blast
    from start_master [OF linked_master [OF l g mg] mg] obtain g0 where
      "slot doc A fn = Some g0" by blast
    with c0 have "fn \<in> set (map fst c0)" by (simp add: slot_def in_keys_image_iff)
    with fn before have "fn \<in> set (takeWhile (\<lambda>k. k \<noteq> f) (map fst c0))" by blast
    with c0 have "earlier doc (A, fn) (A, f)" by (rule earlier_field)
    with I show "?I t" using g mg a by (rule Istep)
  qed
  then have l2: "linked ?D t1" and F2: "slot t1 A f = Some ?F" by blast+
  from m have mF: "truthy (master ?F)" by (simp add: init_field_attrs)
  from r6 F2 mF obtain t2 where a: "add_inverse A f ?F t1 = Normal t2"
    and r7: "link_fields A fpost t2 = Normal s2"
    by (simp only: link_fields_Cons) (auto split: completion.splits)
  have post: "\<forall>fn \<in> set fpost. fn \<noteq> f \<and> \<not> earlier doc (A, fn) (A, f)"
  proof
    fix fn
    assume fn: "fn \<in> set fpost"
    with df have "fn \<noteq> f" "fn \<notin> set fpre" by auto
    with before have "fn \<notin> set (takeWhile (\<lambda>k. k \<noteq> f) (map fst c0))" by blast
    with c0 have "\<not> earlier doc (A, fn) (A, f)" by (rule not_earlier_field)
    with \<open>fn \<noteq> f\<close> show "fn \<noteq> f \<and> \<not> earlier doc (A, fn) (A, f)" by blast
  qed
  have cpost: "\<forall>cn \<in> set cpost. cn \<noteq> A \<and> (\<forall>fn. \<not> earlier doc (cn, fn) (A, f))"
  proof
    fix cn
    assume "cn \<in> set cpost"
    with dc have "cn \<noteq> A" "cn \<notin> set cpre" by auto
    then show "cn \<noteq> A \<and> (\<forall>fn. \<not> earlier doc (cn, fn) (A, f))"
      using not_earlier_collection [of cn A doc] by (simp add: tw)
  qed
  from l2 F2 a r7 r4 post cpost show thesis by (rule goal)
qed

section \<open>The identity field\<close>




section \<open>Inverse fields\<close>

text \<open>
  C2 (as amended). For every schema document that resolves successfully and keeps clear
  of the built-ins (the \<open>type\<close> of every master relation field is a collection of the
  document or is no name inherited from \<^verbatim>\<open>Object.prototype\<close>, and no \<open>as\<close> is
  \<^verbatim>\<open>__proto__\<close>), and every master relation field F declared on collection A under a name
  other than \<^verbatim>\<open>_id\<close>, with \<open>as = R\<close>, relation kind K and \<open>type = B\<close>: if no master relation
  field that comes before F in the document aims at F's own place (field F of
  collection A), and every other master relation field that aims at field R of
  collection B comes before F in the document (so that F is the last to write there),
  then collection B of the resolved schema contains a field named R with \<open>type = A\<close>,
  \<open>nullable = false\<close>, \<open>relation = inverse(K)\<close>, \<open>as\<close> = F's own name, and no master mark.
  The document is taken as the program enumerates it (\<open>plain_objects\<close>). The embedding
  itself does not need the hypothesis about the built-ins, since there a run that
  reaches a built-in does not return; it keeps the statement to the documents on which
  the embedding follows the program.
\<close>

theorem inverse_field_present:
  assumes run: "constructor config = Normal this"
    and plain: "plain_objects (schema config)"
    and clear: "clear_of_builtins (schema config)"
    and F: "slot (schema config) A F = Some field" "F \<noteq> ''_id''"
    and attrs: "type field = JStr B" "as field = JStr R" "relation field = K"
    and rel: "\<not> is_nullish K"
    and H1: "\<forall>(cn, fn, g) \<in> set (master_fields (schema config)).
        aim g = (A, F) \<longrightarrow> \<not> earlier (schema config) (cn, fn) (A, F)"
    and H2: "\<forall>(cn, fn, g) \<in> set (master_fields (schema config)).
        aim g = (B, R) \<longrightarrow> (cn, fn) = (A, F) \<or> earlier (schema config) (cn, fn) (A, F)"
  shows "\<exists>K'. invRelation K = Normal K'
           \<and> slot (r_collections this) B R
               = Some \<lparr>type = JStr A, nullable = JBool False, relation = K',
                       as = JStr F, master = JUndefined\<rparr>"
proof -
  let ?doc = "schema config" and ?D = "start (schema config)" and ?F = "init_field field"
  from constructor_NormalD [OF run]
  have res: "resolve ?doc = Normal (r_collections this)" by simp
  from rel attrs(3) have m: "declared_master field" by (simp add: declared_master_def)
  show ?thesis
  proof (rule resolve_reach [OF res plain F m H1])
    fix t1 t2 s2 fpost cpost
    assume l1: "linked ?D t1" and F1: "slot t1 A F = Some ?F"
      and a: "add_inverse A F ?F t1 = Normal t2"
      and r1: "link_fields A fpost t2 = Normal s2"
      and r2: "link_collections cpost s2 = Normal (r_collections this)"
      and fpost: "\<forall>fn \<in> set fpost. fn \<noteq> F \<and> \<not> earlier ?doc (A, fn) (A, F)"
      and cpost: "\<forall>cn \<in> set cpost. cn \<noteq> A \<and> (\<forall>fn. \<not> earlier ?doc (cn, fn) (A, F))"
    from m have mF: "truthy (master ?F)" by (simp add: init_field_attrs)
    from written_there [OF a] attrs obtain K' where
      K': "invRelation K = Normal K'" and w: "slot t2 B R = Some (inverse_field A F K')"
      by (auto simp: init_field_attrs)
    let ?J = "\<lambda>s. linked ?D s \<and> slot s B R = Some (inverse_field A F K')"
    have J2: "?J t2" using add_inverse_linked [OF l1 F1 mF a] w by blast
    have Jstep: "?J t" if J: "?J s" and later: "\<not> earlier ?doc (cn, fn) (A, F)"
      and other: "(cn, fn) \<noteq> (A, F)"
      and g: "slot s cn fn = Some g" and mg: "truthy (master g)"
      and b: "add_inverse cn fn g s = Normal t" for s cn fn g t
    proof -
      from J have l: "linked ?D s" and Q: "slot s B R = Some (inverse_field A F K')" by blast+
      from start_master [OF linked_master [OF l g mg] mg] obtain g0 where
        g0: "(cn, fn, g0) \<in> set (master_fields ?doc)" "g = init_field g0" by blast
      from H2 g0(1) later other have "aim g0 \<noteq> (B, R)" by blast
      then have "aim g \<noteq> (B, R)" by (simp add: g0(2) aim_init_field)
      from written_elsewhere [OF b this] Q have "slot t B R = Some (inverse_field A F K')"
        by simp
      with add_inverse_linked [OF l g mg b] show ?thesis by blast
    qed
    have J3: "?J s2"
    proof (rule link_fields_within [where P = ?J, OF r1 J2])
      fix s fn g t
      assume J: "?J s" and fn: "fn \<in> set fpost" and g: "slot s A fn = Some g"
        and mg: "truthy (master g)" and b: "add_inverse A fn g s = Normal t"
      from fn fpost have "\<not> earlier ?doc (A, fn) (A, F)" "(A, fn) \<noteq> (A, F)" by auto
      with J show "?J t" using g mg b by (rule Jstep)
    qed
    have "?J (r_collections this)"
    proof (rule link_collections_within [where P = ?J, OF r2 J3])
      fix s cn fn g t
      assume J: "?J s" and cn: "cn \<in> set cpost" and g: "slot s cn fn = Some g"
        and mg: "truthy (master g)" and b: "add_inverse cn fn g s = Normal t"
      from cn cpost have "\<not> earlier ?doc (cn, fn) (A, F)" "(cn, fn) \<noteq> (A, F)" by auto
      with J show "?J t" using g mg b by (rule Jstep)
    qed
    with K' show ?thesis by (simp add: inverse_field_def)
  qed
qed

text \<open>
  The example of the specification, and the second of two relation fields that aim at
  the same field: it is the last to write there.
\<close>

theorem inverse_field_present_witness:
  "constructor profile_config = Normal profile_service
   \<and> plain_objects (schema profile_config) \<and> clear_of_builtins (schema profile_config)
   \<and> slot (schema profile_config) ''User'' ''profile''
       = Some (relates ''Profile'' ''OneToOne'' ''owner'')
   \<and> list_all (\<lambda>(cn, fn, g).
          (aim g = (''User'', ''profile'')
             \<longrightarrow> \<not> earlier (schema profile_config) (cn, fn) (''User'', ''profile''))
          \<and> (aim g = (''Profile'', ''owner'')
             \<longrightarrow> (cn, fn) = (''User'', ''profile'')
                 \<or> earlier (schema profile_config) (cn, fn) (''User'', ''profile'')))
        (master_fields (schema profile_config))
   \<and> slot (r_collections profile_service) ''Profile'' ''owner''
       = Some \<lparr>type = JStr ''User'', nullable = JBool False, relation = JStr ''OneToOne'',
               as = JStr ''profile'', master = JUndefined\<rparr>
   \<and> constructor twin_config = Normal twin_service
   \<and> plain_objects (schema twin_config) \<and> clear_of_builtins (schema twin_config)
   \<and> slot (schema twin_config) ''A'' ''second'' = Some (relates ''B'' ''OneToMany'' ''x'')
   \<and> earlier (schema twin_config) (''A'', ''first'') (''A'', ''second'')
   \<and> list_all (\<lambda>(cn, fn, g).
          (aim g = (''A'', ''second'')
             \<longrightarrow> \<not> earlier (schema twin_config) (cn, fn) (''A'', ''second''))
          \<and> (aim g = (''B'', ''x'')
             \<longrightarrow> (cn, fn) = (''A'', ''second'')
                 \<or> earlier (schema twin_config) (cn, fn) (''A'', ''second'')))
        (master_fields (schema twin_config))
   \<and> slot (r_collections twin_service) ''B'' ''x''
       = Some \<lparr>type = JStr ''A'', nullable = JBool False, relation = JStr ''ManyToOne'',
               as = JStr ''second'', master = JUndefined\<rparr>"
proof -
  let ?p = "schema profile_config" and ?t = "schema twin_config"
  have p1: "plain_objects ?p" and p2: "clear_of_builtins ?p"
    by (simp_all add: profile_config_def plain_objects_def clear_of_builtins_def
        example_defs doc_defs object_prototype_names_def precedes_def array_index_def
        is_digit_def)
  have p3: "slot ?p ''User'' ''profile'' = Some (relates ''Profile'' ''OneToOne'' ''owner'')"
    by (simp add: profile_config_def slot_def)
  have p4: "list_all (\<lambda>(cn, fn, g).
          (aim g = (''User'', ''profile'')
             \<longrightarrow> \<not> earlier ?p (cn, fn) (''User'', ''profile''))
          \<and> (aim g = (''Profile'', ''owner'')
             \<longrightarrow> (cn, fn) = (''User'', ''profile'')
                 \<or> earlier ?p (cn, fn) (''User'', ''profile'')))
        (master_fields ?p)"
    by (simp add: profile_config_def example_defs doc_defs earlier_def)
  then have p5: "\<forall>(cn, fn, g) \<in> set (master_fields ?p).
        aim g = (''User'', ''profile'') \<longrightarrow> \<not> earlier ?p (cn, fn) (''User'', ''profile'')"
    and p6: "\<forall>(cn, fn, g) \<in> set (master_fields ?p).
        aim g = (''Profile'', ''owner'')
          \<longrightarrow> (cn, fn) = (''User'', ''profile'') \<or> earlier ?p (cn, fn) (''User'', ''profile'')"
    by (auto simp: list_all_iff)
  have i1: "invRelation (JStr ''OneToOne'') = Normal (JStr ''OneToOne'')"
    by (simp add: invRelation_def ONE_TO_ONE_def)
  from inverse_field_present [where B = "''Profile''" and R = "''owner''"
      and K = "JStr ''OneToOne''", OF profile_run p1 p2 p3 _ _ _ _ _ p5 p6] i1
  have p7: "slot (r_collections profile_service) ''Profile'' ''owner''
       = Some \<lparr>type = JStr ''User'', nullable = JBool False, relation = JStr ''OneToOne'',
               as = JStr ''profile'', master = JUndefined\<rparr>"
    by (simp add: relates_def)
  have t1: "plain_objects ?t" and t2: "clear_of_builtins ?t"
    by (simp_all add: twin_config_def plain_objects_def clear_of_builtins_def
        example_defs doc_defs object_prototype_names_def precedes_def array_index_def
        is_digit_def)
  have t3: "slot ?t ''A'' ''second'' = Some (relates ''B'' ''OneToMany'' ''x'')"
    by (simp add: twin_config_def slot_def)
  have t4: "earlier ?t (''A'', ''first'') (''A'', ''second'')"
    by (simp add: twin_config_def earlier_def)
  have t5: "list_all (\<lambda>(cn, fn, g).
          (aim g = (''A'', ''second'')
             \<longrightarrow> \<not> earlier ?t (cn, fn) (''A'', ''second''))
          \<and> (aim g = (''B'', ''x'')
             \<longrightarrow> (cn, fn) = (''A'', ''second'')
                 \<or> earlier ?t (cn, fn) (''A'', ''second'')))
        (master_fields ?t)"
    by (simp add: twin_config_def example_defs doc_defs earlier_def)
  then have t6: "\<forall>(cn, fn, g) \<in> set (master_fields ?t).
        aim g = (''A'', ''second'') \<longrightarrow> \<not> earlier ?t (cn, fn) (''A'', ''second'')"
    and t7: "\<forall>(cn, fn, g) \<in> set (master_fields ?t).
        aim g = (''B'', ''x'')
          \<longrightarrow> (cn, fn) = (''A'', ''second'') \<or> earlier ?t (cn, fn) (''A'', ''second'')"
    by (auto simp: list_all_iff)
  have i2: "invRelation (JStr ''OneToMany'') = Normal (JStr ''ManyToOne'')"
    by (simp add: invRelation_def ONE_TO_ONE_def ONE_TO_MANY_def MANY_TO_ONE_def
        MANY_TO_MANY_def)
  from inverse_field_present [where B = "''B''" and R = "''x''"
      and K = "JStr ''OneToMany''", OF twin_run t1 t2 t3 _ _ _ _ _ t6 t7] i2
  have t8: "slot (r_collections twin_service) ''B'' ''x''
       = Some \<lparr>type = JStr ''A'', nullable = JBool False, relation = JStr ''ManyToOne'',
               as = JStr ''second'', master = JUndefined\<rparr>"
    by (simp add: relates_def)
  from profile_run p1 p2 p3 p4 p7 twin_run t1 t2 t3 t4 t5 t8 show ?thesis
    by (intro conjI)
qed

text \<open>
  Two master relation fields with the same \<open>type\<close> and \<open>as\<close>: the field written last
  stays, and the first has no inverse on B.
\<close>

theorem inverse_field_present_counterexample:
  "constructor twin_config = Normal \<lparr>r_database = example_database, r_collections =
       [(''A'', [(''first'', \<lparr>type = JStr ''B'', nullable = JBool True,
                               relation = JStr ''OneToOne'', as = JStr ''x'',
                               master = JBool True\<rparr>),
                 (''second'', \<lparr>type = JStr ''B'', nullable = JBool True,
                                relation = JStr ''OneToMany'', as = JStr ''x'',
                                master = JBool True\<rparr>),
                 (''_id'', id_field)]),
        (''B'', [(''_id'', id_field),
                 (''x'', \<lparr>type = JStr ''A'', nullable = JBool False,
                           relation = JStr ''ManyToOne'', as = JStr ''second'',
                           master = JUndefined\<rparr>)])],
       conn = None\<rparr>
   \<and> slot (schema twin_config) ''A'' ''first'' = Some (relates ''B'' ''OneToOne'' ''x'')
   \<and> invRelation (JStr ''OneToOne'') = Normal (JStr ''OneToOne'')
   \<and> (case constructor twin_config of
         Normal this \<Rightarrow> slot (r_collections this) ''B'' ''x'' | _ \<Rightarrow> None)
       = Some \<lparr>type = JStr ''A'', nullable = JBool False, relation = JStr ''ManyToOne'',
               as = JStr ''second'', master = JUndefined\<rparr>"
  by (simp add: twin_config_def example_defs run_defs slot_def)

section \<open>A derived name that is already taken\<close>




section \<open>Naming a collection that does not exist\<close>

text \<open>
  C8 (as amended). Naming a collection that is absent from the schema fails with a
  TypeError, the runtime's error for using \<^verbatim>\<open>undefined\<close> as an object, where the program
  reaches the name. Take a document that keeps clear of the built-ins (the \<open>type\<close> of
  every master relation field is a collection of the document or is no name inherited
  from \<^verbatim>\<open>Object.prototype\<close>, and no \<open>as\<close> is \<^verbatim>\<open>__proto__\<close>), with a master field (not named
  \<^verbatim>\<open>_id\<close>) whose \<open>type\<close> names an absent collection and at whose own place no master
  relation field aims that comes before it in the document. Its construction throws
  and returns no schema: it throws the TypeError, or the error of \<^verbatim>\<open>invRelation\<close> for an
  undefined relation kind; it is the TypeError when every master field has one of the
  four relation kinds. The document is taken as the program enumerates it
  (\<open>plain_objects\<close>). On every service, \<^verbatim>\<open>fields(name)\<close> for a name that is neither a
  collection nor inherited from \<^verbatim>\<open>Object.prototype\<close> throws the TypeError.
\<close>

theorem absent_collection_fails:
  "(plain_objects (schema config) \<and> clear_of_builtins (schema config)
      \<and> slot (schema config) A F = Some field \<and> F \<noteq> ''_id'' \<and> declared_master field
      \<and> map_of (schema config) (to_string (type field)) = None
      \<and> (\<forall>(cn, fn, g) \<in> set (master_fields (schema config)).
            aim g = (A, F) \<longrightarrow> \<not> earlier (schema config) (cn, fn) (A, F))
    \<longrightarrow> (constructor config = Throw TypeError
          \<or> (\<exists>v. constructor config
                  = Throw (Error (''Undefined relation '' @ to_string v @ ''.''))))
        \<and> ((\<forall>(cn, fn, g) \<in> set (master_fields (schema config)). relation g \<in> relation_kinds)
             \<longrightarrow> constructor config = Throw TypeError))
   \<and> (map_of (r_collections this) name = None \<and> name \<notin> set object_prototype_names
        \<longrightarrow> fields this name = Throw TypeError)"
proof (intro conjI impI)
  assume "map_of (r_collections this) name = None \<and> name \<notin> set object_prototype_names"
  then show "fields this name = Throw TypeError" by (simp add: fields_def)
next
  let ?doc = "schema config" and ?F = "init_field field"
  assume hyps: "plain_objects ?doc \<and> clear_of_builtins ?doc
      \<and> slot ?doc A F = Some field \<and> F \<noteq> ''_id'' \<and> declared_master field
      \<and> map_of ?doc (to_string (type field)) = None
      \<and> (\<forall>(cn, fn, g) \<in> set (master_fields ?doc).
            aim g = (A, F) \<longrightarrow> \<not> earlier ?doc (cn, fn) (A, F))"
  then have plain: "plain_objects ?doc" and clear: "clear_of_builtins ?doc"
    and F: "slot ?doc A F = Some field" "F \<noteq> ''_id''" and m: "declared_master field"
    and absent: "map_of ?doc (to_string (type field)) = None"
    and H1: "\<forall>(cn, fn, g) \<in> set (master_fields ?doc).
        aim g = (A, F) \<longrightarrow> \<not> earlier ?doc (cn, fn) (A, F)"
    by simp_all
  have no: "resolve ?doc \<noteq> Normal S" for S
  proof
    assume "resolve ?doc = Normal S"
    then show False
    proof (rule resolve_reach [OF _ plain F m H1])
      fix t1 t2
      assume l: "linked (start ?doc) t1" and a: "add_inverse A F ?F t1 = Normal t2"
      from add_inverse_NormalD [OF a] have "map_of t1 (to_string (type field)) \<noteq> None"
        by (auto simp: init_field_attrs)
      with linked_dom [OF l, of "to_string (type field)"]
        start_dom [of ?doc "to_string (type field)"] absent
      show False by simp
    qed
  qed
  with resolve_clear [OF clear] obtain e where e: "resolve ?doc = Throw e"
    by (cases "resolve ?doc") auto
  then have c: "constructor config = Throw e" by (simp add: constructor_def)
  from resolve_errors [of ?doc] e
  have "e = TypeError \<or> (\<exists>v. e = Error (''Undefined relation '' @ to_string v @ ''.''))"
    by simp
  with c show "constructor config = Throw TypeError
      \<or> (\<exists>v. constructor config = Throw (Error (''Undefined relation '' @ to_string v @ ''.'')))"
    by auto
  assume "\<forall>(cn, fn, g) \<in> set (master_fields ?doc). relation g \<in> relation_kinds"
  from resolve_throws_TypeError [OF this e] c
  show "constructor config = Throw TypeError" by simp
qed

text \<open>
  A relation to a missing collection on its own, and one at whose place a relation
  field of a later collection aims: the second pass comes to it first.
\<close>

theorem absent_collection_fails_witness:
  "plain_objects (schema dangling_config) \<and> clear_of_builtins (schema dangling_config)
   \<and> slot (schema dangling_config) ''A'' ''f'' = Some (relates ''Nope'' ''OneToOne'' ''x'')
   \<and> declared_master (relates ''Nope'' ''OneToOne'' ''x'')
   \<and> map_of (schema dangling_config) ''Nope'' = None
   \<and> list_all (\<lambda>(cn, fn, g). aim g \<noteq> (''A'', ''f'') \<and> relation g \<in> relation_kinds)
        (master_fields (schema dangling_config))
   \<and> constructor dangling_config = Throw TypeError
   \<and> plain_objects (schema aimed_later_config)
   \<and> clear_of_builtins (schema aimed_later_config)
   \<and> slot (schema aimed_later_config) ''A'' ''f'' = Some (relates ''Nope'' ''OneToOne'' ''x'')
   \<and> map_of (schema aimed_later_config) ''Nope'' = None
   \<and> slot (schema aimed_later_config) ''C'' ''h'' = Some (relates ''A'' ''OneToOne'' ''f'')
   \<and> list_all (\<lambda>(cn, fn, g).
          (aim g = (''A'', ''f'')
             \<longrightarrow> \<not> earlier (schema aimed_later_config) (cn, fn) (''A'', ''f''))
          \<and> relation g \<in> relation_kinds)
        (master_fields (schema aimed_later_config))
   \<and> constructor aimed_later_config = Throw TypeError
   \<and> map_of (r_collections profile_service) ''NoSuchCollection'' = None
   \<and> ''NoSuchCollection'' \<notin> set object_prototype_names
   \<and> fields profile_service ''NoSuchCollection'' = Throw TypeError"
proof -
  let ?d = "schema dangling_config" and ?l = "schema aimed_later_config"
  let ?f = "relates ''Nope'' ''OneToOne'' ''x''"
  have d1: "plain_objects ?d" and d2: "clear_of_builtins ?d"
    by (simp_all add: dangling_config_def plain_objects_def clear_of_builtins_def
        example_defs doc_defs object_prototype_names_def precedes_def array_index_def
        is_digit_def)
  have d3: "slot ?d ''A'' ''f'' = Some ?f"
    by (simp add: dangling_config_def slot_def)
  have m: "declared_master ?f"
    by (simp add: relates_def declared_master_def)
  have d4: "map_of ?d (to_string (type ?f)) = None"
    by (simp add: dangling_config_def relates_def)
  have d5: "list_all (\<lambda>(cn, fn, g). aim g \<noteq> (''A'', ''f'') \<and> relation g \<in> relation_kinds)
        (master_fields ?d)"
    by (simp add: dangling_config_def example_defs doc_defs relation_kinds_def ONE_TO_ONE_def)
  then have d6: "\<forall>(cn, fn, g) \<in> set (master_fields ?d).
      aim g = (''A'', ''f'') \<longrightarrow> \<not> earlier ?d (cn, fn) (''A'', ''f'')"
    and d7: "\<forall>(cn, fn, g) \<in> set (master_fields ?d). relation g \<in> relation_kinds"
    by (auto simp: list_all_iff)
  have n: "map_of (r_collections profile_service) ''NoSuchCollection'' = None"
    and p: "''NoSuchCollection'' \<notin> set object_prototype_names"
    by (simp_all add: profile_service_def object_prototype_names_def)
  from absent_collection_fails [where config = dangling_config and A = "''A''"
      and F = "''f''" and field = ?f and this = profile_service
      and name = "''NoSuchCollection''"] d1 d2 d3 m d4 d6 d7 n p
  have d8: "constructor dangling_config = Throw TypeError"
    and f: "fields profile_service ''NoSuchCollection'' = Throw TypeError"
    by simp_all
  have l1: "plain_objects ?l" and l2: "clear_of_builtins ?l"
    by (simp_all add: aimed_later_config_def plain_objects_def clear_of_builtins_def
        example_defs doc_defs object_prototype_names_def precedes_def array_index_def
        is_digit_def)
  have l3: "slot ?l ''A'' ''f'' = Some ?f"
    and l3': "slot ?l ''C'' ''h'' = Some (relates ''A'' ''OneToOne'' ''f'')"
    by (simp_all add: aimed_later_config_def slot_def)
  have l4: "map_of ?l (to_string (type ?f)) = None"
    by (simp add: aimed_later_config_def relates_def)
  have l5: "list_all (\<lambda>(cn, fn, g).
          (aim g = (''A'', ''f'') \<longrightarrow> \<not> earlier ?l (cn, fn) (''A'', ''f''))
          \<and> relation g \<in> relation_kinds)
        (master_fields ?l)"
    by (simp add: aimed_later_config_def example_defs doc_defs relation_kinds_def
        ONE_TO_ONE_def earlier_def)
  then have l6: "\<forall>(cn, fn, g) \<in> set (master_fields ?l).
      aim g = (''A'', ''f'') \<longrightarrow> \<not> earlier ?l (cn, fn) (''A'', ''f'')"
    and l7: "\<forall>(cn, fn, g) \<in> set (master_fields ?l). relation g \<in> relation_kinds"
    by (auto simp: list_all_iff)
  from absent_collection_fails [where config = aimed_later_config and A = "''A''"
      and F = "''f''" and field = ?f] l1 l2 l3 m l4 l6 l7
  have l8: "constructor aimed_later_config = Throw TypeError" by simp
  from d4 l4 have d4': "map_of ?d ''Nope'' = None" and l4': "map_of ?l ''Nope'' = None"
    by (simp_all add: relates_def)
  from d1 d2 d3 m d4' d5 d8 l1 l2 l3 l4' l3' l5 l8 n p f show ?thesis
    by (intro conjI)
qed

text \<open>
  The master field B.g names the absent collection Nope, but the inverse of A.f
  replaces it before the second pass reaches it: the construction succeeds.
\<close>

theorem absent_collection_fails_counterexample:
  "slot (schema shadowed_config) ''B'' ''g'' = Some (relates ''Nope'' ''OneToOne'' ''x'')
   \<and> map_of (schema shadowed_config) ''Nope'' = None
   \<and> constructor shadowed_config = Normal \<lparr>r_database = example_database, r_collections =
       [(''A'', [(''f'', \<lparr>type = JStr ''B'', nullable = JBool True,
                           relation = JStr ''OneToOne'', as = JStr ''g'',
                           master = JBool True\<rparr>),
                 (''_id'', id_field)]),
        (''B'', [(''g'', \<lparr>type = JStr ''A'', nullable = JBool False,
                           relation = JStr ''OneToOne'', as = JStr ''f'',
                           master = JUndefined\<rparr>),
                 (''_id'', id_field)])],
       conn = None\<rparr>"
  by (simp add: shadowed_config_def example_defs run_defs slot_def)

section \<open>The escaping helpers\<close>

text \<open>
  C10. \<^verbatim>\<open>escId\<close> and \<^verbatim>\<open>escVal\<close> fail for every input on every service the constructor
  builds: they read \<^verbatim>\<open>this.conn\<close>, which the constructor does not assign (and no other
  operation changes the service), so the call on \<^verbatim>\<open>undefined\<close> throws a TypeError.
\<close>

theorem escaping_helpers_fail:
  assumes "constructor config = Normal this"
  shows "escId this ident = Throw TypeError \<and> escVal this val = Throw TypeError"
  using constructor_NormalD [OF assms] by (simp add: escId_def escVal_def)

theorem escaping_helpers_fail_witness:
  "constructor profile_config = Normal profile_service
   \<and> escId profile_service ''users'' = Throw TypeError
   \<and> escVal profile_service (Val (JStr ''x'')) = Throw TypeError"
  using escaping_helpers_fail [OF profile_run] profile_run by simp

section \<open>Reset and sync\<close>

lemma released_append: "released (tr @ es) = (released tr \<or> released es)"
  by (simp add: released_def)

lemma failed_append: "statement_failed (tr @ es) = (statement_failed tr \<or> statement_failed es)"
  by (simp add: statement_failed_def)

lemma released_simps:
  "released [] = False" "released (e # es) = ((case e of End _ \<Rightarrow> True | _ \<Rightarrow> False) \<or> released es)"
  by (simp_all add: released_def)

lemma failed_simps:
  "statement_failed [] = False"
  "statement_failed (e # es)
     = ((case e of Query _ (Some _) \<Rightarrow> True | _ \<Rightarrow> False) \<or> statement_failed es)"
  by (simp_all add: statement_failed_def)

lemma clean_connect: "clean (connect this)"
  by (simp add: clean_def connect_def released_def statement_failed_def)

lemma exec_ok: "clean tr \<Longrightarrow> step_ok (exec srv sql tr)"
  by (simp add: exec_def step_ok_def clean_def released_append failed_append
      released_simps failed_simps butlast_append Let_def split: sum.splits)

lemma await_step:
  assumes "step_ok (p tr)" and "\<And>x tr'. clean tr' \<Longrightarrow> step_ok (rest x tr')"
  shows "step_ok (await p rest tr)"
proof (cases "p tr")
  case (Pair out tr')
  with assms show ?thesis
    by (cases out) (simp_all add: await_def step_ok_def)
qed

lemma await_final:
  assumes "step_ok (p tr)" and "\<And>x tr'. clean tr' \<Longrightarrow> release_rule (rest x tr')"
  shows "release_rule (await p rest tr)"
proof (cases "p tr")
  case (Pair out tr')
  with assms show ?thesis
    by (cases out) (simp_all add: await_def step_ok_def release_rule_def)
qed

lemma conn_end_final: "clean tr \<Longrightarrow> release_rule (conn_end srv tr)"
  by (simp add: conn_end_def release_rule_def clean_def released_append failed_append
      released_simps failed_simps split: option.splits)

lemma drop_tables_ok: "clean tr \<Longrightarrow> step_ok (drop_tables mysql srv records tr)"
proof (induction records arbitrary: tr)
  case Nil
  then show ?case by (simp add: step_ok_def)
next
  case (Cons r records)
  show ?case
    unfolding drop_tables.simps
    by (rule await_step) (use Cons in \<open>simp_all add: exec_ok\<close>)
qed

lemma create_tables_ok: "clean tr \<Longrightarrow> step_ok (create_tables mysql srv names tr)"
proof (induction names arbitrary: tr)
  case Nil
  then show ?case by (simp add: step_ok_def)
next
  case (Cons n names)
  show ?case
    unfolding create_tables.simps
    by (rule await_step) (use Cons in \<open>simp_all add: exec_ok\<close>)
qed

text \<open>
  C7 (as amended). For every execution of \<^verbatim>\<open>reset()\<close> or \<^verbatim>\<open>sync()\<close>: when no statement
  execution fails, the connection acquired at the start is released, as the last action
  before the operation returns (or throws what \<^verbatim>\<open>conn.end\<close> reported); when a statement
  execution fails, the operation stops there, the error of that statement is surfaced
  and the connection is not released.
\<close>

theorem connection_release:
  "release_rule (sync mysql srv this update) \<and> release_rule (reset mysql srv this)"
proof
  show "release_rule (sync mysql srv this update)"
    unfolding sync_def
    by (rule await_final) (simp_all add: create_tables_ok clean_connect conn_end_final)
  show "release_rule (reset mysql srv this)"
    unfolding reset_def
    by (intro await_final await_step exec_ok drop_tables_ok clean_connect conn_end_final)
qed

theorem connection_release_witness:
  "statement_failed (snd (sync bare_mysql refusing_server profile_service JUndefined))
   \<and> \<not> released (snd (sync bare_mysql refusing_server profile_service JUndefined))
   \<and> last (snd (sync bare_mysql refusing_server profile_service JUndefined))
       = Query ''CREATE TABLE IF NOT EXISTS User (id int, PRIMARY KEY(id));''
           (Some ''ER_DBACCESS_DENIED_ERROR'')
   \<and> fst (sync bare_mysql refusing_server profile_service JUndefined)
       = Throw (DatabaseError ''ER_DBACCESS_DENIED_ERROR'')
   \<and> \<not> statement_failed (snd (reset bare_mysql willing_server profile_service))
   \<and> released (snd (reset bare_mysql willing_server profile_service))
   \<and> last (snd (reset bare_mysql willing_server profile_service)) = End None
   \<and> fst (reset bare_mysql willing_server profile_service) = Normal ()"
proof -
  let ?failing = "sync bare_mysql refusing_server profile_service JUndefined"
  let ?passing = "reset bare_mysql willing_server profile_service"
  have f: "statement_failed (snd ?failing)"
    by (simp add: sync_def await_def exec_def connect_def refusing_server_def
        profile_service_def statement_failed_def)
  have l: "last (snd ?failing)
      = Query ''CREATE TABLE IF NOT EXISTS User (id int, PRIMARY KEY(id));''
          (Some ''ER_DBACCESS_DENIED_ERROR'')"
    by (simp add: sync_def await_def exec_def connect_def refusing_server_def
        profile_service_def stmtCreateTable_def bare_mysql_def)
  have n: "\<not> statement_failed (snd ?passing)"
    by (simp add: reset_def await_def exec_def conn_end_def connect_def
        willing_server_def statement_failed_def)
  from connection_release [of bare_mysql refusing_server profile_service JUndefined] f
  have 1: "\<not> released (snd ?failing)"
    and 2: "\<exists>sql err. last (snd ?failing) = Query sql (Some err)
          \<and> fst ?failing = Throw (DatabaseError err)"
    by (auto simp: release_rule_def split: prod.splits)
  from 2 l have 3: "fst ?failing = Throw (DatabaseError ''ER_DBACCESS_DENIED_ERROR'')"
    by auto
  from connection_release [of bare_mysql willing_server profile_service JUndefined] n
  have 4: "released (snd ?passing)"
    and 5: "\<exists>r. last (snd ?passing) = End r
          \<and> fst ?passing = (case r of None \<Rightarrow> Normal ()
                               | Some err \<Rightarrow> Throw (DatabaseError err))"
    by (auto simp: release_rule_def split: prod.splits)
  have e: "last (snd ?passing) = End None"
    by (simp add: reset_def await_def exec_def conn_end_def connect_def willing_server_def)
  with 5 have 6: "fst ?passing = Normal ()" by auto
  from f 1 l 3 n 4 e 6 show ?thesis by (intro conjI)
qed

text \<open>
  With a server that refuses the first statement, both operations end with the error
  and without a call of \<^verbatim>\<open>conn.end\<close>.
\<close>

theorem connection_release_counterexample:
  "sync bare_mysql refusing_server profile_service JUndefined
     = (Throw (DatabaseError ''ER_DBACCESS_DENIED_ERROR''),
        [Connect example_database,
         Debug ''SQL> CREATE TABLE IF NOT EXISTS User (id int, PRIMARY KEY(id));'',
         Query ''CREATE TABLE IF NOT EXISTS User (id int, PRIMARY KEY(id));''
           (Some ''ER_DBACCESS_DENIED_ERROR'')])
   \<and> \<not> released (snd (sync bare_mysql refusing_server profile_service JUndefined))
   \<and> reset bare_mysql refusing_server profile_service
     = (Throw (DatabaseError ''ER_DBACCESS_DENIED_ERROR''),
        [Connect example_database,
         Debug ''SQL> SELECT table_name FROM information_schema.tables WHERE table_schema=app;'',
         Query ''SELECT table_name FROM information_schema.tables WHERE table_schema=app;''
           (Some ''ER_DBACCESS_DENIED_ERROR'')])
   \<and> \<not> released (snd (reset bare_mysql refusing_server profile_service))"
  by (simp add: sync_def reset_def await_def exec_def connect_def stmtCreateTable_def
      stmtSelectTableName_def bare_mysql_def refusing_server_def profile_service_def
      example_database_def released_def)

text \<open>
  C9. \<^verbatim>\<open>sync\<close> does not depend on its argument \<open>update\<close>: with any two values (\<open>JUndefined\<close>
  when it is omitted), on the same service and against the same server, it issues the
  same statements and gives the same result.
\<close>

theorem sync_ignores_update:
  "sync mysql srv this update = sync mysql srv this update'"
  by (simp add: sync_def)

section \<open>The constructor writes only to objects it created\<close>

lemma read_SomeD: "read h a = Some c \<Longrightarrow> a < length h \<and> h ! a = c"
  by (simp add: read_def split: if_splits)









lemma values_add_prop: "snd ` set (add_prop k v ps) = insert v (snd ` set ps)"
  by (induction ps) auto

lemma values_set_prop: "snd ` set (set_prop k v ps) \<subseteq> insert v (snd ` set ps)"
  by (auto simp: set_prop_def values_add_prop)



lemma take_append_below: "n \<le> length h \<Longrightarrow> take n (h @ xs) = take n h"
  by simp










lemma read_extends:
  assumes "take (length h) h' = h" "read h a = Some c"
  shows "read h' a = Some c"
proof -
  from read_SomeD [OF assms(2)] have a: "a < length h" "h ! a = c" by simp_all
  have "length (take (length h) h') = min (length h') (length h)" by simp
  with assms(1) have "length h \<le> length h'" by simp
  moreover from a(1) have "take (length h) h' ! a = h' ! a" by simp
  ultimately show ?thesis using a assms(1) by (simp add: read_def)
qed

lemma view_fields_extends:
  assumes "take (length h) h' = h"
  shows "view_fields h ps = Some c \<Longrightarrow> view_fields h' ps = Some c"
proof (induction ps arbitrary: c)
  case Nil
  then show ?case by simp
next
  case (Cons p ps)
  obtain k a where p: "p = (k, a)" by (cases p)
  from Cons.prems obtain f c' where f: "read h a = Some (FieldCell f)"
    and c': "view_fields h ps = Some c'" and c: "c = (k, f) # c'"
    by (auto simp: p split: option.splits cell.splits)
  from read_extends [OF assms f] Cons.IH [OF c'] show ?case by (simp add: p c)
qed

lemma view_collections_extends:
  assumes "take (length h) h' = h"
  shows "view_collections h cs = Some s \<Longrightarrow> view_collections h' cs = Some s"
proof (induction cs arbitrary: s)
  case Nil
  then show ?case by simp
next
  case (Cons p cs)
  obtain k a where p: "p = (k, a)" by (cases p)
  from Cons.prems obtain ps c s' where ps: "read h a = Some (ObjectCell ps)"
    and c: "view_fields h ps = Some c"
    and s': "view_collections h cs = Some s'" and s: "s = (k, c) # s'"
    by (auto simp: p split: option.splits cell.splits)
  from read_extends [OF assms ps] view_fields_extends [OF assms c] Cons.IH [OF s']
  show ?case by (simp add: p s)
qed


lemmas store_defs = heap_constructor_def json_copy_def read_def heap_keys_def
  heap_add_inverse_def view_def

lemma profile_store_run:
  "heap_constructor 5 profile_store =
     (Normal 11,
      profile_store @
      [FieldCell (init_field (plain ''string'')),
       FieldCell (init_field (relates ''Profile'' ''OneToOne'' ''owner'')),
       ObjectCell [(''name'', 6), (''profile'', 7), (''_id'', 12)],
       FieldCell (init_field (plain ''string'')),
       ObjectCell [(''bio'', 9), (''_id'', 13), (''owner'', 14)],
       ObjectCell [(''User'', 8), (''Profile'', 10)],
       FieldCell id_field,
       FieldCell id_field,
       FieldCell (inverse_field ''User'' ''profile'' (JStr ''OneToOne''))])"
  by (simp add: profile_store_def store_defs example_defs run_defs)

lemma profile_store_view:
  "view profile_store 5 = Some (schema profile_config)"
  by (simp add: profile_store_def profile_config_def view_def read_def)

lemma profile_store_view_after:
  "view (snd (heap_constructor 5 profile_store)) 11 = Some (r_collections profile_service)"
  unfolding profile_store_run
  by (simp add: profile_store_def profile_service_def view_def read_def example_defs
      init_field_def id_field_def inverse_field_def)





section \<open>The store model agrees with the schema model\<close>

text \<open>
  The constructor on the store and \<open>resolve\<close> on schemas are two embeddings of the same
  source lines. This section shows that they agree: started on a store where the
  document can be read, with distinct property names, the store constructor completes
  the way \<open>resolve\<close> does on the document read, and on normal completion the object it
  returns reads as the schema that \<open>resolve\<close> returns.
\<close>

subsection \<open>Reading fields off a store that is written to\<close>

lemma set_prop_Cons_same:
  "k \<notin> fst ` set ps \<Longrightarrow> set_prop k v ((k, w) # ps) = (k, v) # ps"
  by (induction ps) (auto simp: set_prop_def)

lemma map_replace_absent:
  "k \<notin> fst ` set ps \<Longrightarrow> map (\<lambda>p. if fst p = k then (k, v) else p) ps = ps"
  by (induction ps) auto

lemma set_prop_Cons_other:
  "k \<noteq> k0 \<Longrightarrow> k \<in> fst ` set ps \<Longrightarrow> set_prop k v ((k0, w) # ps) = (k0, w) # set_prop k v ps"
  by (simp add: set_prop_def)

lemma view_fields_keys: "view_fields h ps = Some col \<Longrightarrow> map fst col = map fst ps"
proof (induction ps arbitrary: col)
  case Nil
  then show ?case by simp
next
  case (Cons p ps)
  then show ?case
    by (cases p) (auto split: option.splits cell.splits)
qed

lemma view_fields_lookup:
  "view_fields h ps = Some col \<Longrightarrow>
     map_of col k = (case map_of ps k of None \<Rightarrow> None
                     | Some a \<Rightarrow> (case read h a of Some (FieldCell f) \<Rightarrow> Some f | _ \<Rightarrow> None))"
proof (induction ps arbitrary: col)
  case Nil
  then show ?case by simp
next
  case (Cons p ps)
  then show ?case
    by (cases p) (auto split: option.splits cell.splits)
qed

lemma view_fields_readable:
  "view_fields h ps = Some col \<Longrightarrow> a \<in> snd ` set ps \<Longrightarrow> \<exists>f. read h a = Some (FieldCell f)"
proof (induction ps arbitrary: col)
  case Nil
  then show ?case by simp
next
  case (Cons p ps)
  then show ?case
    by (cases p) (auto split: option.splits cell.splits)
qed

lemma view_fields_cong:
  "(\<And>a. a \<in> snd ` set ps \<Longrightarrow> read h' a = read h a) \<Longrightarrow> view_fields h' ps = view_fields h ps"
proof (induction ps)
  case Nil
  then show ?case by simp
next
  case (Cons p ps)
  obtain k a where p: "p = (k, a)" by (cases p)
  have "read h' a = read h a" by (rule Cons.prems) (simp add: p)
  moreover have "view_fields h' ps = view_fields h ps"
    by (rule Cons.IH) (rule Cons.prems, simp)
  ultimately show ?case by (simp add: p split: option.splits cell.splits)
qed

lemma view_fields_replace:
  assumes "view_fields h ps = Some col" "read h i = Some (FieldCell g)"
  shows "view_fields h (map (\<lambda>p. if fst p = k then (k, i) else p) ps)
           = Some (map (\<lambda>p. if fst p = k then (k, g) else p) col)"
  using assms(1)
proof (induction ps arbitrary: col)
  case Nil
  then show ?case by simp
next
  case (Cons p ps)
  obtain k0 a where p: "p = (k0, a)" by (cases p)
  from Cons.prems obtain f col' where "read h a = Some (FieldCell f)"
    "view_fields h ps = Some col'" "col = (k0, f) # col'"
    by (auto simp: p split: option.splits cell.splits)
  with Cons.IH [of col'] assms(2) show ?case by (simp add: p)
qed

lemma view_fields_add:
  assumes "view_fields h ps = Some col" "read h i = Some (FieldCell g)"
  shows "view_fields h (add_prop k i ps) = Some (add_prop k g col)"
  using assms(1)
proof (induction ps arbitrary: col)
  case Nil
  then show ?case using assms(2) by simp
next
  case (Cons p ps)
  obtain k0 a where p: "p = (k0, a)" by (cases p)
  from Cons.prems obtain f col' where "read h a = Some (FieldCell f)"
    "view_fields h ps = Some col'" "col = (k0, f) # col'"
    by (auto simp: p split: option.splits cell.splits)
  with Cons.IH [of col'] assms(2) show ?case by (simp add: p)
qed

lemma view_fields_set_prop:
  assumes "view_fields h ps = Some col" "read h i = Some (FieldCell g)"
  shows "view_fields h (set_prop k i ps) = Some (set_prop k g col)"
proof -
  from view_fields_keys [OF assms(1)] have "map fst col = map fst ps" .
  then have "(k \<in> set (map fst col)) = (k \<in> set (map fst ps))" by simp
  then show ?thesis
    using view_fields_replace [OF assms] view_fields_add [OF assms]
    by (simp add: set_prop_def)
qed

lemma read_update:
  "read (h[a := c]) b = (if b = a \<and> a < length h then Some c else read h b)"
  by (simp add: read_def)

lemma read_append:
  "read (h @ [c]) b = (if b = length h then Some c else read h b)"
  by (auto simp: read_def nth_append)

lemma view_fields_write:
  assumes "view_fields h ps = Some col" "distinct (map fst ps)" "distinct (map snd ps)"
    "map_of ps k = Some a"
  shows "view_fields (h[a := FieldCell f']) ps = Some (set_prop k f' col)"
  using assms
proof (induction ps arbitrary: col)
  case Nil
  then show ?case by simp
next
  case (Cons p ps)
  obtain k0 a0 where p: "p = (k0, a0)" by (cases p)
  from Cons.prems(1) obtain f col' where r: "read h a0 = Some (FieldCell f)"
    and v: "view_fields h ps = Some col'" and c: "col = (k0, f) # col'"
    by (auto simp: p split: option.splits cell.splits)
  from view_fields_keys [OF v] have keys: "fst ` set col' = fst ` set ps"
    by (metis set_map)
  show ?case
  proof (cases "k0 = k")
    case True
    with Cons.prems(4) have a: "a0 = a" by (simp add: p)
    with Cons.prems(3) have "a \<notin> snd ` set ps" by (simp add: p)
    then have "view_fields (h[a := FieldCell f']) ps = view_fields h ps"
      by (intro view_fields_cong) (auto simp: read_update)
    moreover from read_SomeD [OF r] a have "a < length h" by simp
    moreover from True Cons.prems(2) keys have "k \<notin> fst ` set col'" by (simp add: p)
    ultimately show ?thesis
      using v by (simp add: p c a True read_update set_prop_Cons_same)
  next
    case False
    with Cons.prems(4) have m: "map_of ps k = Some a" by (simp add: p)
    then have "a \<in> snd ` set ps" by (force dest: map_of_SomeD)
    with Cons.prems(3) have "a0 \<noteq> a" by (auto simp: p)
    moreover from m keys have "k \<in> fst ` set col'"
      by (simp add: in_keys_image_iff)
    moreover from Cons.IH [OF v _ _ m] Cons.prems(2,3)
    have "view_fields (h[a := FieldCell f']) ps = Some (set_prop k f' col')" by (simp add: p)
    ultimately show ?thesis
      using r False by (simp add: p c read_update set_prop_Cons_other)
  qed
qed

subsection \<open>Reading collections off a store that is written to\<close>

lemma sim_init_fields:
  assumes "read h c = Some (ObjectCell ps)" "view_fields h ps = Some col"
    "distinct (map fst ps)" "distinct (map snd ps)"
  shows "\<exists>h'. heap_init_fields ks c h = Some h' \<and> read h' c = Some (ObjectCell ps)
           \<and> view_fields h' ps = Some (init_fields ks col) \<and> length h' = length h
           \<and> (\<forall>b. b \<notin> snd ` set ps \<longrightarrow> read h' b = read h b)"
  using assms(1,2)
proof (induction ks arbitrary: h col)
  case Nil
  then show ?case by simp
next
  case (Cons k ks)
  note lk = view_fields_lookup [OF Cons.prems(2), of k]
  show ?case
  proof (cases "map_of ps k")
    case None
    with lk have "map_of col k = None" by simp
    with None Cons.prems(1) Cons.IH [OF Cons.prems] show ?thesis by simp
  next
    case (Some a)
    then have a: "a \<in> snd ` set ps" by (force dest: map_of_SomeD)
    from view_fields_readable [OF Cons.prems(2) a] obtain f where
      f: "read h a = Some (FieldCell f)" ..
    with lk Some have c: "map_of col k = Some f" by simp
    let ?h = "h[a := FieldCell (init_field f)]"
    from f Cons.prems(1) have "a \<noteq> c" by auto
    with Cons.prems(1) have 1: "read ?h c = Some (ObjectCell ps)" by (simp add: read_update)
    have 2: "view_fields ?h ps = Some (set_prop k (init_field f) col)"
      using Cons.prems(2) assms(3,4) Some by (rule view_fields_write)
    from Cons.IH [OF 1 2] obtain h' where
      h': "heap_init_fields ks c ?h = Some h'" "read h' c = Some (ObjectCell ps)"
        "view_fields h' ps = Some (init_fields ks (set_prop k (init_field f) col))"
        "length h' = length ?h" "\<forall>b. b \<notin> snd ` set ps \<longrightarrow> read h' b = read ?h b"
      by blast
    from h'(5) a have "\<forall>b. b \<notin> snd ` set ps \<longrightarrow> read h' b = read h b"
      by (auto simp: read_update)
    with h' Some f c Cons.prems(1) show ?thesis by simp
  qed
qed

lemma view_collections_keys: "view_collections h cs = Some S \<Longrightarrow> map fst S = map fst cs"
proof (induction cs arbitrary: S)
  case Nil
  then show ?case by simp
next
  case (Cons p cs)
  then show ?case
    by (cases p) (auto split: option.splits cell.splits)
qed

lemma view_collections_lookup:
  "view_collections h cs = Some S \<Longrightarrow>
     map_of S k = (case map_of cs k of None \<Rightarrow> None
                   | Some c \<Rightarrow> (case read h c of Some (ObjectCell ps) \<Rightarrow> view_fields h ps
                                | _ \<Rightarrow> None))"
proof (induction cs arbitrary: S)
  case Nil
  then show ?case by simp
next
  case (Cons p cs)
  then show ?case
    by (cases p) (auto split: option.splits cell.splits)
qed

lemma view_collections_readable:
  "view_collections h cs = Some S \<Longrightarrow> c \<in> snd ` set cs \<Longrightarrow>
     \<exists>ps col. read h c = Some (ObjectCell ps) \<and> view_fields h ps = Some col"
proof (induction cs arbitrary: S)
  case Nil
  then show ?case by simp
next
  case (Cons p cs)
  then show ?case
    by (cases p) (auto split: option.splits cell.splits)
qed

lemma view_collections_cong:
  assumes "\<And>c ps. c \<in> snd ` set cs \<Longrightarrow> read h c = Some (ObjectCell ps) \<Longrightarrow>
      read h' c = Some (ObjectCell ps) \<and> view_fields h' ps = view_fields h ps"
    and "view_collections h cs = Some S"
  shows "view_collections h' cs = Some S"
  using assms
proof (induction cs arbitrary: S)
  case Nil
  then show ?case by simp
next
  case (Cons p cs)
  obtain k0 c0 where p: "p = (k0, c0)" by (cases p)
  from Cons.prems(2) obtain ps col S' where r: "read h c0 = Some (ObjectCell ps)"
    and vf: "view_fields h ps = Some col"
    and v: "view_collections h cs = Some S'" and S: "S = (k0, col) # S'"
    by (auto simp: p split: option.splits cell.splits)
  from Cons.prems(1) [of c0 ps] r vf
  have "read h' c0 = Some (ObjectCell ps)" "view_fields h' ps = Some col" by (simp_all add: p)
  moreover have "view_collections h' cs = Some S'"
    by (rule Cons.IH [OF _ v]) (rule Cons.prems(1), simp_all)
  ultimately show ?case by (simp add: p S)
qed

text \<open>Replacing the view of one collection, the others being read as before.\<close>

lemma view_collections_write:
  assumes "view_collections h cs = Some S" "distinct (map fst cs)" "distinct (map snd cs)"
    "map_of cs k = Some c" "read h' c = Some (ObjectCell ps')" "view_fields h' ps' = Some col'"
    and other: "\<And>c' ps. c' \<in> snd ` set cs \<Longrightarrow> c' \<noteq> c \<Longrightarrow> read h c' = Some (ObjectCell ps) \<Longrightarrow>
        read h' c' = Some (ObjectCell ps) \<and> view_fields h' ps = view_fields h ps"
  shows "view_collections h' cs = Some (set_prop k col' S)"
  using assms(1-4) other
proof (induction cs arbitrary: S)
  case Nil
  then show ?case by simp
next
  case (Cons p cs)
  obtain k0 c0 where p: "p = (k0, c0)" by (cases p)
  from Cons.prems(1) obtain ps col S' where r: "read h c0 = Some (ObjectCell ps)"
    and vf: "view_fields h ps = Some col"
    and v: "view_collections h cs = Some S'" and S: "S = (k0, col) # S'"
    by (auto simp: p split: option.splits cell.splits)
  from view_collections_keys [OF v] have keys: "fst ` set S' = fst ` set cs"
    by (metis set_map)
  have rest_other: "read h' c' = Some (ObjectCell qs) \<and> view_fields h' qs = view_fields h qs"
    if "c' \<in> snd ` set cs" "c' \<noteq> c" "read h c' = Some (ObjectCell qs)" for c' qs
    using that Cons.prems(5) [of c' qs] by (simp add: p)
  show ?case
  proof (cases "k0 = k")
    case True
    with Cons.prems(4) have c: "c0 = c" by (simp add: p)
    with Cons.prems(3) have nc: "c \<notin> snd ` set cs" by (simp add: p)
    have "view_collections h' cs = Some S'"
    proof (rule view_collections_cong [OF _ v])
      fix c' qs
      assume "c' \<in> snd ` set cs" "read h c' = Some (ObjectCell qs)"
      with nc rest_other [of c' qs]
      show "read h' c' = Some (ObjectCell qs) \<and> view_fields h' qs = view_fields h qs"
        by auto
    qed
    moreover from True Cons.prems(2) keys have "k \<notin> fst ` set S'" by (simp add: p)
    ultimately show ?thesis
      using assms(5,6) by (simp add: p S c True set_prop_Cons_same)
  next
    case False
    with Cons.prems(4) have m: "map_of cs k = Some c" by (simp add: p)
    then have "c \<in> snd ` set cs" by (force dest: map_of_SomeD)
    with Cons.prems(3) have "c0 \<noteq> c" by (auto simp: p)
    with Cons.prems(5) [of c0 ps] r vf
    have "read h' c0 = Some (ObjectCell ps)" "view_fields h' ps = Some col" by (simp_all add: p)
    moreover from m keys have "k \<in> fst ` set S'" by (simp add: in_keys_image_iff)
    moreover have "view_collections h' cs = Some (set_prop k col' S')"
      using v Cons.prems(2,3) m rest_other by (intro Cons.IH) (simp_all add: p)
    ultimately show ?thesis
      using False by (simp add: p S set_prop_Cons_other)
  qed
qed

subsection \<open>Keys and addresses stay distinct under assignment\<close>

lemma replace_twice:
  "map (\<lambda>p. if fst p = k then (k, v) else p) (map (\<lambda>p. if fst p = k then (k, w) else p) ps)
     = map (\<lambda>p. if fst p = k then (k, v) else p) ps"
  by (induction ps) auto

lemma replace_added:
  "map_of ps k = None \<Longrightarrow>
     map (\<lambda>p. if fst p = k then (k, v) else p) (add_prop k w ps) = add_prop k v ps"
  by (induction ps) (auto simp: map_replace_absent in_keys_image_iff split: if_splits)

lemma set_prop_twice: "set_prop k v (set_prop k w ps) = set_prop k v ps"
proof (cases "k \<in> set (map fst ps)")
  case True
  then have "set_prop k w ps = map (\<lambda>p. if fst p = k then (k, w) else p) ps"
    by (simp only: set_prop_def if_True)
  moreover have "k \<in> set (map fst (map (\<lambda>p. if fst p = k then (k, w) else p) ps))"
    using True by (simp only: keys_replace)
  ultimately have "set_prop k v (set_prop k w ps)
      = map (\<lambda>p. if fst p = k then (k, v) else p) (map (\<lambda>p. if fst p = k then (k, w) else p) ps)"
    by (simp only: set_prop_def if_True)
  also have "\<dots> = set_prop k v ps"
    using True by (simp only: replace_twice set_prop_def if_True)
  finally show ?thesis .
next
  case False
  then have n: "map_of ps k = None" by (simp only: in_keys_iff not_not)
  from False have "set_prop k w ps = add_prop k w ps"
    by (simp only: set_prop_def if_False)
  moreover have "k \<in> set (map fst (add_prop k w ps))"
    by (simp only: keys_add_prop insertI1)
  ultimately have "set_prop k v (set_prop k w ps)
      = map (\<lambda>p. if fst p = k then (k, v) else p) (add_prop k w ps)"
    by (simp only: set_prop_def if_True)
  also have "\<dots> = set_prop k v ps"
    using False by (simp only: replace_added [OF n] set_prop_def if_False)
  finally show ?thesis .
qed

lemma values_replace:
  "snd ` set (map (\<lambda>p. if fst p = k then (k, v) else p) ps) \<subseteq> insert v (snd ` set ps)"
  by (induction ps) auto

lemma distinct_values_replace:
  assumes "distinct (map fst ps)" "distinct (map snd ps)" "v \<notin> snd ` set ps"
  shows "distinct (map snd (map (\<lambda>p. if fst p = k then (k, v) else p) ps))"
  using assms
proof (induction ps)
  case Nil
  then show ?case by simp
next
  case (Cons p ps)
  show ?case
  proof (cases "fst p = k")
    case True
    with Cons.prems(1) have "k \<notin> fst ` set ps" by auto
    then have "map (\<lambda>p. if fst p = k then (k, v) else p) ps = ps"
      by (rule map_replace_absent)
    with True Cons.prems show ?thesis by auto
  next
    case False
    from Cons.prems have "snd p \<noteq> v" "snd p \<notin> snd ` set ps" by auto
    with values_replace [of k v ps]
    have "snd p \<notin> snd ` set (map (\<lambda>p. if fst p = k then (k, v) else p) ps)" by blast
    moreover from Cons have "distinct (map snd (map (\<lambda>p. if fst p = k then (k, v) else p) ps))"
      by auto
    ultimately show ?thesis using False by (simp del: map_map)
  qed
qed

lemma distinct_values_add_prop:
  "distinct (map snd ps) \<Longrightarrow> v \<notin> snd ` set ps \<Longrightarrow> distinct (map snd (add_prop k v ps))"
proof (induction ps)
  case Nil
  then show ?case by simp
next
  case (Cons p ps)
  then have "snd p \<notin> snd ` set (add_prop k v ps)"
    by (simp only: values_add_prop) auto
  with Cons show ?case by auto
qed

lemma distinct_values_set_prop:
  assumes "distinct (map fst ps)" "distinct (map snd ps)" "v \<notin> snd ` set ps"
  shows "distinct (map snd (set_prop k v ps))"
proof (cases "k \<in> set (map fst ps)")
  case True
  with distinct_values_replace [OF assms] show ?thesis by (simp only: set_prop_def if_True)
next
  case False
  with distinct_values_add_prop [OF assms(2,3)] show ?thesis
    by (simp only: set_prop_def if_False)
qed

subsection \<open>Writes that keep the representation\<close>

lemma represents_collection:
  assumes "represents h root cs S" "map_of cs t = Some c"
  shows "\<exists>ps col. read h c = Some (ObjectCell ps) \<and> view_fields h ps = Some col
           \<and> map_of S t = Some col \<and> distinct (map fst ps) \<and> distinct (map snd ps)
           \<and> c \<noteq> root \<and> c \<in> snd ` set cs"
proof -
  from assms(2) have c: "c \<in> snd ` set cs" by (force dest: map_of_SomeD)
  from assms(1) have v: "view_collections h cs = Some S" by (simp add: represents_def)
  from view_collections_readable [OF v c] obtain ps col where
    ps: "read h c = Some (ObjectCell ps)" "view_fields h ps = Some col" by blast
  with view_collections_lookup [OF v, of t] assms(2) have "map_of S t = Some col" by simp
  moreover from assms(1) c ps(1) have "distinct (map fst ps)" "distinct (map snd ps)"
    unfolding represents_def by blast+
  moreover from assms(1) c have "c \<noteq> root" unfolding represents_def by blast
  ultimately show ?thesis using ps c by blast
qed

lemma represents_absent:
  assumes "represents h root cs S" "map_of cs t = None"
  shows "map_of S t = None"
proof -
  from assms(1) have v: "view_collections h cs = Some S" by (simp add: represents_def)
  from view_collections_lookup [OF v, of t] assms(2) show ?thesis by simp
qed

lemma field_addrs_read: "read h c = Some (ObjectCell ps) \<Longrightarrow> field_addrs h c = snd ` set ps"
  by (simp add: field_addrs_def)

lemma represents_change:
  assumes rep: "represents h root cs S" and t: "map_of cs t = Some c"
    and ps: "read h c = Some (ObjectCell ps)"
    and c': "read h' c = Some (ObjectCell ps')" and v': "view_fields h' ps' = Some col'"
    and dk: "distinct (map fst ps')" and dv: "distinct (map snd ps')"
    and new: "snd ` set ps' \<subseteq> snd ` set ps \<union> {a. length h \<le> a}"
    and frame: "\<And>b. b < length h \<Longrightarrow> b \<noteq> c \<Longrightarrow> b \<notin> snd ` set ps \<Longrightarrow> read h' b = read h b"
  shows "represents h' root cs (set_prop t col' S)"
proof -
  from rep have root: "read h root = Some (ObjectCell cs)"
    and v: "view_collections h cs = Some S"
    and dcs: "distinct (map fst cs)" "distinct (map snd cs)" and rn: "root \<notin> snd ` set cs"
    and dps: "\<forall>c \<in> snd ` set cs. \<forall>ps. read h c = Some (ObjectCell ps)
           \<longrightarrow> distinct (map fst ps) \<and> distinct (map snd ps)"
    and dis: "\<forall>c \<in> snd ` set cs. \<forall>c' \<in> snd ` set cs.
           c \<noteq> c' \<longrightarrow> field_addrs h c \<inter> field_addrs h c' = {}"
    by (simp_all add: represents_def)
  from t have cin: "c \<in> snd ` set cs" by (force dest: map_of_SomeD)
  from represents_collection [OF rep t] ps obtain col where
    col: "view_fields h ps = Some col" by auto
  have fld: "\<exists>f. read h b = Some (FieldCell f)" if "b \<in> snd ` set ps" for b
    using view_fields_readable [OF col that] .
  have obj_keep: "read h' b = read h b" if "read h b = Some (ObjectCell qs)" "b \<noteq> c" for b qs
  proof (rule frame)
    show "b < length h" using read_SomeD [OF that(1)] by simp
    show "b \<noteq> c" by (rule that(2))
    show "b \<notin> snd ` set ps" using fld [of b] that(1) by auto
  qed
  have other: "read h' c2 = Some (ObjectCell qs) \<and> view_fields h' qs = view_fields h qs
      \<and> (\<forall>b \<in> snd ` set qs. b < length h \<and> b \<notin> snd ` set ps)"
    if c2: "c2 \<in> snd ` set cs" "c2 \<noteq> c" "read h c2 = Some (ObjectCell qs)" for c2 qs
  proof -
    from view_collections_readable [OF v c2(1)] c2(3) obtain colq where
      q: "view_fields h qs = Some colq" by auto
    have b: "b < length h \<and> b \<noteq> c \<and> b \<notin> snd ` set ps" if "b \<in> snd ` set qs" for b
    proof -
      from view_fields_readable [OF q that] obtain f where f: "read h b = Some (FieldCell f)" ..
      from dis c2(1,2) cin have "field_addrs h c2 \<inter> field_addrs h c = {}" by blast
      with that have "b \<notin> snd ` set ps"
        by (auto simp: field_addrs_read [OF c2(3)] field_addrs_read [OF ps])
      with f ps read_SomeD [OF f] show ?thesis by auto
    qed
    have "view_fields h' qs = view_fields h qs"
      by (rule view_fields_cong) (use b frame in blast)
    with obj_keep [OF c2(3,2)] c2(3) b show ?thesis by auto
  qed
  have 1: "read h' root = Some (ObjectCell cs)"
    using obj_keep [OF root] rn cin root by auto
  have 2: "view_collections h' cs = Some (set_prop t col' S)"
    using v dcs t c' v'
  proof (rule view_collections_write)
    fix c2 qs
    assume "c2 \<in> snd ` set cs" "c2 \<noteq> c" "read h c2 = Some (ObjectCell qs)"
    from other [OF this]
    show "read h' c2 = Some (ObjectCell qs) \<and> view_fields h' qs = view_fields h qs" by simp
  qed
  have 3: "distinct (map fst qs) \<and> distinct (map snd qs)"
    if "c2 \<in> snd ` set cs" "read h' c2 = Some (ObjectCell qs)" for c2 qs
  proof (cases "c2 = c")
    case True
    with that(2) c' dk dv show ?thesis by simp
  next
    case False
    from view_collections_readable [OF v that(1)] obtain qs0 where
      q0: "read h c2 = Some (ObjectCell qs0)" by blast
    from other [OF that(1) False q0] that(2) have "qs = qs0" by simp
    with dps that(1) q0 show ?thesis by blast
  qed
  have addrs: "field_addrs h' c2 = (if c2 = c then snd ` set ps' else field_addrs h c2)"
    if "c2 \<in> snd ` set cs" for c2
  proof (cases "c2 = c")
    case True
    then show ?thesis by (simp add: field_addrs_read [OF c'])
  next
    case False
    from view_collections_readable [OF v that] obtain qs0 where
      q0: "read h c2 = Some (ObjectCell qs0)" by blast
    from other [OF that False q0] have "read h' c2 = Some (ObjectCell qs0)" by simp
    with False q0 show ?thesis by (simp add: field_addrs_read)
  qed
  have old_below: "field_addrs h c2 \<inter> (snd ` set ps \<union> {a. length h \<le> a}) = {}"
    if "c2 \<in> snd ` set cs" "c2 \<noteq> c" for c2
  proof -
    from view_collections_readable [OF v that(1)] obtain qs0 where
      q0: "read h c2 = Some (ObjectCell qs0)" by blast
    from other [OF that q0] show ?thesis
      by (auto simp: field_addrs_read [OF q0])
  qed
  have 4: "field_addrs h' c1 \<inter> field_addrs h' c2 = {}"
    if "c1 \<in> snd ` set cs" "c2 \<in> snd ` set cs" "c1 \<noteq> c2" for c1 c2
  proof -
    consider "c1 = c" | "c2 = c" | "c1 \<noteq> c" "c2 \<noteq> c" by blast
    then show ?thesis
    proof cases
      case 1
      with that old_below [of c2] new show ?thesis
        by (simp add: addrs) blast
    next
      case 2
      with that old_below [of c1] new show ?thesis
        by (simp add: addrs) blast
    next
      case 3
      from dis that have "field_addrs h c1 \<inter> field_addrs h c2 = {}" by blast
      with 3 that show ?thesis by (simp add: addrs)
    qed
  qed
  from 1 2 3 4 dcs rn show ?thesis unfolding represents_def by blast
qed

subsection \<open>The first pass on the store\<close>

lemma represents_assign:
  assumes rep: "represents h root cs S" and t: "map_of cs t = Some c"
    and ps: "read h c = Some (ObjectCell ps)" and col: "view_fields h ps = Some col"
  shows "represents ((h @ [FieldCell g])[c := ObjectCell (set_prop a (length h) ps)]) root cs
           (set_prop t (set_prop a g col) S)"
proof (rule represents_change [OF rep t ps])
  let ?ps = "set_prop a (length h) ps"
  let ?h = "(h @ [FieldCell g])[c := ObjectCell ?ps]"
  from read_SomeD [OF ps] have c: "c < length h" by simp
  have keep: "read ?h b = read h b" if "b < length h" "b \<noteq> c" for b
    using that by (simp add: read_update read_append)
  have below: "b < length h \<and> b \<noteq> c" if "b \<in> snd ` set ps" for b
  proof -
    from view_fields_readable [OF col that] obtain f where f: "read h b = Some (FieldCell f)" ..
    with ps read_SomeD [OF f] show ?thesis by auto
  qed
  show "read ?h c = Some (ObjectCell ?ps)" using c by (simp add: read_update)
  have "view_fields ?h ps = view_fields h ps"
    by (rule view_fields_cong) (use below keep in blast)
  moreover have "read ?h (length h) = Some (FieldCell g)"
    using c by (simp add: read_update read_append)
  ultimately show "view_fields ?h ?ps = Some (set_prop a g col)"
    using col by (intro view_fields_set_prop) simp_all
  from represents_collection [OF rep t] ps
  have d: "distinct (map fst ps)" "distinct (map snd ps)" by auto
  from d(1) show "distinct (map fst ?ps)" by (rule distinct_keys_set_prop)
  from below have n: "length h \<notin> snd ` set ps" by blast
  from d n show "distinct (map snd ?ps)" by (rule distinct_values_set_prop)
  show "snd ` set ?ps \<subseteq> snd ` set ps \<union> {a. length h \<le> a}"
    using values_set_prop [of a "length h" ps] by auto
  show "\<And>b. b < length h \<Longrightarrow> b \<noteq> c \<Longrightarrow> b \<notin> snd ` set ps \<Longrightarrow> read ?h b = read h b"
    using keep by blast
qed

lemma represents_read:
  assumes "represents h root cs S" "map_of cs t = Some c" "read h c = Some (ObjectCell ps)"
  shows "\<exists>col. view_fields h ps = Some col \<and> map_of S t = Some col
           \<and> distinct (map fst ps) \<and> distinct (map snd ps)"
  using represents_collection [OF assms(1,2)] assms(3) by auto

lemma sim_init_collections:
  assumes "represents h root cs S"
  shows "\<exists>h'. heap_init_collections ks root h = Some h'
           \<and> represents h' root cs (init_collections ks S)"
  using assms
proof (induction ks arbitrary: h S)
  case Nil
  then show ?case by simp
next
  case (Cons k ks)
  from Cons.prems have root: "read h root = Some (ObjectCell cs)"
    by (simp add: represents_def)
  show ?case
  proof (cases "map_of cs k")
    case None
    with represents_absent [OF Cons.prems None] root Cons.IH [OF Cons.prems]
    show ?thesis by simp
  next
    case (Some c)
    from represents_collection [OF Cons.prems Some] obtain ps col where
      ps: "read h c = Some (ObjectCell ps)" and col: "view_fields h ps = Some col"
      and S: "map_of S k = Some col" by blast
    let ?ps = "set_prop ''_id'' (length h) ps"
    let ?h1 = "(h @ [FieldCell id_field])[c := ObjectCell ?ps]"
    let ?col1 = "set_prop ''_id'' id_field col"
    let ?S1 = "set_prop k ?col1 S"
    have rep1: "represents ?h1 root cs ?S1"
      using Cons.prems Some ps col by (rule represents_assign)
    from read_SomeD [OF ps] have r1: "read ?h1 c = Some (ObjectCell ?ps)"
      by (simp add: read_update)
    from represents_read [OF rep1 Some r1]
    have v1: "view_fields ?h1 ?ps = Some ?col1"
      and d1: "distinct (map fst ?ps)" "distinct (map snd ?ps)"
      by (auto simp: map_of_set_prop)
    from sim_init_fields [OF r1 v1 d1, of "map fst ?ps"] obtain h2 where
      h2: "heap_init_fields (map fst ?ps) c ?h1 = Some h2" "read h2 c = Some (ObjectCell ?ps)"
        "view_fields h2 ?ps = Some (init_fields (map fst ?ps) ?col1)" "length h2 = length ?h1"
        "\<forall>b. b \<notin> snd ` set ?ps \<longrightarrow> read h2 b = read ?h1 b"
      by blast
    from view_fields_keys [OF v1] have "init_fields (map fst ?ps) ?col1 = init_collection col"
      by (simp add: init_collection_def Let_def)
    with h2(3) have v2: "view_fields h2 ?ps = Some (init_collection col)" by simp
    have "represents h2 root cs (set_prop k (init_collection col) ?S1)"
      using rep1 Some r1 h2(2) v2 d1
    proof (rule represents_change)
      show "snd ` set ?ps \<subseteq> snd ` set ?ps \<union> {a. length ?h1 \<le> a}" by blast
      show "\<And>b. b < length ?h1 \<Longrightarrow> b \<noteq> c \<Longrightarrow> b \<notin> snd ` set ?ps \<Longrightarrow> read h2 b = read ?h1 b"
        using h2(5) by blast
    qed
    then have rep2: "represents h2 root cs (set_prop k (init_collection col) S)"
      by (simp only: set_prop_twice)
    from Cons.IH [OF rep2] obtain h' where
      "heap_init_collections ks root h2 = Some h'"
      "represents h' root cs (init_collections ks (set_prop k (init_collection col) S))"
      by blast
    with root Some ps h2(1) S show ?thesis by (simp add: Let_def)
  qed
qed

subsection \<open>The second pass on the store\<close>

lemma sim_add_inverse:
  assumes rep: "represents h root cs S"
  shows "corresponds root cs (heap_add_inverse cn fn f root h) (add_inverse cn fn f S)"
proof (cases "invRelation (relation f)")
  case (Normal r)
  let ?d = "inverse_field cn fn r"
  let ?h1 = "h @ [FieldCell ?d]"
  let ?t = "to_string (type f)" and ?a = "to_string (as f)"
  from rep have root: "read h root = Some (ObjectCell cs)" by (simp add: represents_def)
  with read_SomeD [OF root] have root1: "read ?h1 root = Some (ObjectCell cs)"
    by (simp add: read_append)
  show ?thesis
  proof (cases "map_of cs ?t")
    case None
    with represents_absent [OF rep None] Normal root1 show ?thesis
      by (simp add: heap_add_inverse_def add_inverse_def Let_def corresponds_def)
  next
    case (Some c)
    from represents_collection [OF rep Some] obtain ps col where
      ps: "read h c = Some (ObjectCell ps)" and col: "view_fields h ps = Some col"
      and S: "map_of S ?t = Some col" by blast
    from ps read_SomeD [OF ps] have ps1: "read ?h1 c = Some (ObjectCell ps)"
      by (simp add: read_append)
    from view_fields_keys [OF col] have "set (map fst col) = set (map fst ps)" by simp
    then have keys: "fst ` set col = fst ` set ps" by simp
    show ?thesis
    proof (cases "?a = ''__proto__'' \<and> ?a \<notin> set (map fst ps)")
      case True
      then have a: "?a = ''__proto__''" by (rule conjunct1)
      from True have "?a \<notin> set (map fst ps)" by (rule conjunct2)
      then have n: "?a \<notin> fst ` set ps" by simp
      from n keys have n': "?a \<notin> fst ` set col" by simp
      have "heap_add_inverse cn fn f root h = (Beyond, ?h1)"
        using Normal root1 Some ps1 a n by (simp add: heap_add_inverse_def Let_def)
      moreover have "add_inverse cn fn f S = Beyond"
        using Normal S a n' by (simp add: add_inverse_def Let_def)
      ultimately show ?thesis by (simp add: corresponds_def)
    next
      case False
      have "represents (?h1[c := ObjectCell (set_prop ?a (length h) ps)]) root cs
          (set_prop ?t (set_prop ?a ?d col) S)"
        using rep Some ps col by (rule represents_assign)
      moreover from False Normal root1 Some ps1
      have "heap_add_inverse cn fn f root h
          = (Normal (), ?h1[c := ObjectCell (set_prop ?a (length h) ps)])"
        by (auto simp: heap_add_inverse_def Let_def)
      moreover from False Normal S keys
      have "add_inverse cn fn f S = Normal (set_prop ?t (set_prop ?a ?d col) S)"
        by (auto simp: add_inverse_def Let_def)
      ultimately show ?thesis by (simp add: corresponds_def)
    qed
  qed
next
  case (Throw e)
  then show ?thesis by (simp add: heap_add_inverse_def add_inverse_def corresponds_def)
next
  case Beyond
  then show ?thesis by (simp add: heap_add_inverse_def add_inverse_def corresponds_def)
qed

lemma sim_link_fields:
  assumes "represents h root cs S" "map_of cs cn = Some c"
  shows "corresponds root cs (heap_link_fields cn c ks root h) (link_fields cn ks S)"
  using assms(1)
proof (induction ks arbitrary: h S)
  case Nil
  then show ?case by (simp add: corresponds_def)
next
  case (Cons k ks)
  from represents_collection [OF Cons.prems assms(2)] obtain ps col where
    ps: "read h c = Some (ObjectCell ps)" and col: "view_fields h ps = Some col"
    and S: "map_of S cn = Some col" by blast
  note lk = view_fields_lookup [OF col, of k]
  show ?case
  proof (cases "map_of ps k")
    case None
    with lk have "map_of col k = None" by simp
    with None ps S Cons.IH [OF Cons.prems] show ?thesis by simp
  next
    case (Some a)
    then have "a \<in> snd ` set ps" by (force dest: map_of_SomeD)
    from view_fields_readable [OF col this] obtain g where g: "read h a = Some (FieldCell g)" ..
    with lk Some have cg: "map_of col k = Some g" by simp
    show ?thesis
    proof (cases "truthy (master g)")
      case False
      with Some g cg ps S Cons.IH [OF Cons.prems] show ?thesis by simp
    next
      case True
      obtain o1 h1 where s: "heap_add_inverse cn k g root h = (o1, h1)"
        by (cases "heap_add_inverse cn k g root h")
      note sim = sim_add_inverse [OF Cons.prems, of cn k g]
      show ?thesis
      proof (cases o1)
        case (Normal u)
        with sim s obtain S1 where S1: "add_inverse cn k g S = Normal S1"
          and rep1: "represents h1 root cs S1" by (auto simp: corresponds_def)
        from Cons.IH [OF rep1] True Some g cg ps S s Normal S1 show ?thesis by simp
      next
        case (Throw e)
        with sim s have "add_inverse cn k g S = Throw e" by (simp add: corresponds_def)
        with True Some g cg ps S s Throw show ?thesis by (simp add: corresponds_def)
      next
        case Beyond
        with sim s have "add_inverse cn k g S = Beyond" by (simp add: corresponds_def)
        with True Some g cg ps S s Beyond show ?thesis by (simp add: corresponds_def)
      qed
    qed
  qed
qed

lemma sim_link_collections:
  assumes "represents h root cs S"
  shows "corresponds root cs (heap_link_collections ks root h) (link_collections ks S)"
  using assms
proof (induction ks arbitrary: h S)
  case Nil
  then show ?case by (simp add: corresponds_def)
next
  case (Cons k ks)
  from Cons.prems have root: "read h root = Some (ObjectCell cs)" by (simp add: represents_def)
  show ?case
  proof (cases "map_of cs k")
    case None
    with represents_absent [OF Cons.prems None] root Cons.IH [OF Cons.prems]
    show ?thesis by simp
  next
    case (Some c)
    from represents_collection [OF Cons.prems Some] obtain ps col where
      ps: "read h c = Some (ObjectCell ps)" and col: "view_fields h ps = Some col"
      and S: "map_of S k = Some col" by blast
    from view_fields_keys [OF col] have keys: "map fst col = map fst ps" .
    obtain o1 h1 where s: "heap_link_fields k c (map fst ps) root h = (o1, h1)"
      by (cases "heap_link_fields k c (map fst ps) root h")
    note sim = sim_link_fields [OF Cons.prems Some, of "map fst ps"]
    show ?thesis
    proof (cases o1)
      case (Normal u)
      with sim s obtain S1 where S1: "link_fields k (map fst ps) S = Normal S1"
        and rep1: "represents h1 root cs S1" by (auto simp: corresponds_def)
      from Cons.IH [OF rep1] root Some ps S keys s Normal S1 show ?thesis by simp
    next
      case (Throw e)
      with sim s have "link_fields k (map fst ps) S = Throw e" by (simp add: corresponds_def)
      with root Some ps S keys s Throw show ?thesis by (simp add: corresponds_def)
    next
      case Beyond
      with sim s have "link_fields k (map fst ps) S = Beyond" by (simp add: corresponds_def)
      with root Some ps S keys s Beyond show ?thesis by (simp add: corresponds_def)
    qed
  qed
qed

subsection \<open>Copying the fields of a collection\<close>

lemma read_append_old: "read h a = Some c \<Longrightarrow> read (h @ ext) a = Some c"
  by (rule read_extends) simp_all

lemma view_fields_append: "view_fields h ps = Some col \<Longrightarrow> view_fields (h @ ext) ps = Some col"
  by (rule view_fields_extends) simp_all

lemma view_collections_append:
  "view_collections h cs = Some S \<Longrightarrow> view_collections (h @ ext) cs = Some S"
  by (rule view_collections_extends) simp_all

lemma copy_fields_view:
  assumes "view_fields h ps = Some col"
  shows "\<exists>ps' ext. copy_fields ps h = Some (ps', h @ ext)
           \<and> view_fields (h @ ext) ps' = Some col \<and> map fst ps' = map fst ps
           \<and> distinct (map snd ps')
           \<and> snd ` set ps' \<subseteq> {length h ..< length h + length ext}"
  using assms
proof (induction ps arbitrary: h col)
  case Nil
  have "copy_fields [] h = Some ([], h @ [])" by simp
  moreover from Nil have "view_fields (h @ []) [] = Some col" by simp
  ultimately show ?case by (intro exI [of _ "[]"]) simp
next
  case (Cons p ps)
  obtain k a where p: "p = (k, a)" by (cases p)
  from Cons.prems obtain f col' where f: "read h a = Some (FieldCell f)"
    and v: "view_fields h ps = Some col'" and col: "col = (k, f) # col'"
    by (auto simp: p split: option.splits cell.splits)
  let ?h1 = "h @ [FieldCell f]"
  from Cons.IH [OF view_fields_append [OF v, of "[FieldCell f]"]] obtain ps' ext where
    c: "copy_fields ps ?h1 = Some (ps', ?h1 @ ext)"
    and v': "view_fields (?h1 @ ext) ps' = Some col'"
    and k': "map fst ps' = map fst ps" and d': "distinct (map snd ps')"
    and r': "snd ` set ps' \<subseteq> {length ?h1 ..< length ?h1 + length ext}"
    by blast
  let ?ext = "FieldCell f # ext"
  have e: "?h1 @ ext = h @ ?ext" by simp
  have 1: "copy_fields (p # ps) h = Some ((k, length h) # ps', h @ ?ext)"
    using f c by (simp add: p)
  have "read (h @ ?ext) (length h) = Some (FieldCell f)" by (simp add: read_def)
  with v' have 2: "view_fields (h @ ?ext) ((k, length h) # ps') = Some col"
    by (simp add: col)
  from r' have "length h \<notin> snd ` set ps'" by auto
  with d' have 3: "distinct (map snd ((k, length h) # ps'))" by simp
  from r' have 4: "snd ` set ((k, length h) # ps') \<subseteq> {length h ..< length h + length ?ext}"
    by auto
  from 1 2 3 4 k' show ?case by (intro exI [of _ "(k, length h) # ps'"] exI [of _ ?ext]) (simp add: p)
qed

subsection \<open>Copying the collections of a document\<close>

lemma copy_collections_view:
  assumes "view_collections h cs = Some S" "\<forall>c \<in> snd ` set S. distinct (map fst c)"
  shows "\<exists>cs' ext. copy_collections cs h = Some (cs', h @ ext)
           \<and> view_collections (h @ ext) cs' = Some S \<and> map fst cs' = map fst cs
           \<and> distinct (map snd cs')
           \<and> snd ` set cs' \<subseteq> {length h ..< length h + length ext}
           \<and> (\<forall>c \<in> snd ` set cs'. \<exists>ps. read (h @ ext) c = Some (ObjectCell ps)
                 \<and> distinct (map fst ps) \<and> distinct (map snd ps)
                 \<and> snd ` set ps \<subseteq> {length h ..< length h + length ext})
           \<and> (\<forall>c \<in> snd ` set cs'. \<forall>c' \<in> snd ` set cs'.
                 c \<noteq> c' \<longrightarrow> field_addrs (h @ ext) c \<inter> field_addrs (h @ ext) c' = {})"
  using assms
proof (induction cs arbitrary: h S)
  case Nil
  have "copy_collections [] h = Some ([], h @ [])" by simp
  moreover from Nil have "view_collections (h @ []) [] = Some S" by simp
  ultimately show ?case by (intro exI [of _ "[]"]) simp
next
  case (Cons p cs)
  obtain k a where p: "p = (k, a)" by (cases p)
  from Cons.prems(1) obtain ps col S' where r: "read h a = Some (ObjectCell ps)"
    and vf: "view_fields h ps = Some col"
    and v: "view_collections h cs = Some S'" and S: "S = (k, col) # S'"
    by (auto simp: p split: option.splits cell.splits)
  from copy_fields_view [OF vf] obtain ps' e1 where
    cf: "copy_fields ps h = Some (ps', h @ e1)"
    and vf': "view_fields (h @ e1) ps' = Some col"
    and kf: "map fst ps' = map fst ps" and df: "distinct (map snd ps')"
    and rf: "snd ` set ps' \<subseteq> {length h ..< length h + length e1}"
    by blast
  let ?h1 = "h @ e1"
  let ?h2 = "?h1 @ [ObjectCell ps']"
  let ?c0 = "length ?h1"
  have v2: "view_collections ?h2 cs = Some S'"
    using view_collections_append [OF v, of "e1 @ [ObjectCell ps']"] by simp
  from Cons.prems(2) have dS': "\<forall>c \<in> snd ` set S'. distinct (map fst c)" by (simp add: S)
  obtain cs' e2 where
    ih: "copy_collections cs ?h2 = Some (cs', ?h2 @ e2)
           \<and> view_collections (?h2 @ e2) cs' = Some S' \<and> map fst cs' = map fst cs
           \<and> distinct (map snd cs')
           \<and> snd ` set cs' \<subseteq> {length ?h2 ..< length ?h2 + length e2}
           \<and> (\<forall>c \<in> snd ` set cs'. \<exists>ps. read (?h2 @ e2) c = Some (ObjectCell ps)
                 \<and> distinct (map fst ps) \<and> distinct (map snd ps)
                 \<and> snd ` set ps \<subseteq> {length ?h2 ..< length ?h2 + length e2})
           \<and> (\<forall>c \<in> snd ` set cs'. \<forall>c' \<in> snd ` set cs'.
                 c \<noteq> c' \<longrightarrow> field_addrs (?h2 @ e2) c \<inter> field_addrs (?h2 @ e2) c' = {})"
  proof -
    from Cons.IH [OF v2 dS'] show ?thesis by (elim exE) (rule that)
  qed
  note cc = ih [THEN conjunct1]
  note vc = ih [THEN conjunct2, THEN conjunct1]
  note kc = ih [THEN conjunct2, THEN conjunct2, THEN conjunct1]
  note dc = ih [THEN conjunct2, THEN conjunct2, THEN conjunct2, THEN conjunct1]
  note rc = ih [THEN conjunct2, THEN conjunct2, THEN conjunct2, THEN conjunct2, THEN conjunct1]
  note each = ih [THEN conjunct2, THEN conjunct2, THEN conjunct2, THEN conjunct2,
    THEN conjunct2, THEN conjunct1]
  note dis = ih [THEN conjunct2, THEN conjunct2, THEN conjunct2, THEN conjunct2,
    THEN conjunct2, THEN conjunct2]
  let ?ext = "e1 @ ObjectCell ps' # e2"
  let ?hf = "h @ ?ext"
  have e: "?h2 @ e2 = ?hf" by simp
  let ?cs = "(k, ?c0) # cs'"
  have r0: "read ?hf ?c0 = Some (ObjectCell ps')"
    by (simp add: read_def nth_append)
  have 1: "copy_collections (p # cs) h = Some (?cs, ?hf)"
    using r cf cc by (simp add: p)
  have "view_fields ?hf ps' = Some col"
    using view_fields_append [OF vf', of "ObjectCell ps' # e2"] by simp
  with r0 vc have 2: "view_collections ?hf ?cs = Some S" by (simp add: S e)
  have 3: "map fst ?cs = map fst (p # cs)" by (simp add: kc p)
  from rc have "?c0 \<notin> snd ` set cs'" by auto
  with dc have 4: "distinct (map snd ?cs)" by simp
  from rc have 5: "snd ` set ?cs \<subseteq> {length h ..< length h + length ?ext}" by auto
  from view_fields_keys [OF vf] kf have "map fst ps' = map fst col" by simp
  moreover from Cons.prems(2) have "distinct (map fst col)" by (simp add: S)
  ultimately have dk0: "distinct (map fst ps')" by simp
  have fa0: "field_addrs ?hf ?c0 = snd ` set ps'" using r0 by (rule field_addrs_read)
  have range: "field_addrs ?hf c \<subseteq> {length ?h2 ..< length ?h2 + length e2}"
    if "c \<in> snd ` set cs'" for c
  proof -
    from each that obtain qs where "read (?h2 @ e2) c = Some (ObjectCell qs)"
      "snd ` set qs \<subseteq> {length ?h2 ..< length ?h2 + length e2}" by blast
    then show ?thesis by (simp add: field_addrs_def e)
  qed
  have 6: "\<forall>c \<in> snd ` set ?cs. \<exists>qs. read ?hf c = Some (ObjectCell qs)
      \<and> distinct (map fst qs) \<and> distinct (map snd qs)
      \<and> snd ` set qs \<subseteq> {length h ..< length h + length ?ext}"
  proof
    fix c
    assume "c \<in> snd ` set ?cs"
    then consider "c = ?c0" | "c \<in> snd ` set cs'" by auto
    then show "\<exists>qs. read ?hf c = Some (ObjectCell qs)
      \<and> distinct (map fst qs) \<and> distinct (map snd qs)
      \<and> snd ` set qs \<subseteq> {length h ..< length h + length ?ext}"
    proof cases
      case 1
      from rf have "snd ` set ps' \<subseteq> {length h ..< length h + length ?ext}" by auto
      with 1 r0 dk0 df show ?thesis by blast
    next
      case 2
      with each obtain qs where "read (?h2 @ e2) c = Some (ObjectCell qs)"
        "distinct (map fst qs)" "distinct (map snd qs)"
        "snd ` set qs \<subseteq> {length ?h2 ..< length ?h2 + length e2}" by blast
      moreover from this(4) have "snd ` set qs \<subseteq> {length h ..< length h + length ?ext}"
        by auto
      ultimately show ?thesis by (auto simp: e)
    qed
  qed
  have 7: "\<forall>c \<in> snd ` set ?cs. \<forall>c' \<in> snd ` set ?cs.
      c \<noteq> c' \<longrightarrow> field_addrs ?hf c \<inter> field_addrs ?hf c' = {}"
  proof (intro ballI impI)
    fix c c'
    assume c: "c \<in> snd ` set ?cs" and c': "c' \<in> snd ` set ?cs" and n: "c \<noteq> c'"
    have sep: "field_addrs ?hf ?c0 \<inter> field_addrs ?hf d = {}" if "d \<in> snd ` set cs'" for d
    proof -
      have "field_addrs ?hf ?c0 \<subseteq> {length h ..< length ?h2}"
        unfolding fa0 using rf by auto
      with range [OF that] show ?thesis by fastforce
    qed
    from c c' consider "c = ?c0" "c' \<in> snd ` set cs'" | "c' = ?c0" "c \<in> snd ` set cs'"
      | "c \<in> snd ` set cs'" "c' \<in> snd ` set cs'" | "c = ?c0" "c' = ?c0" by auto
    then show "field_addrs ?hf c \<inter> field_addrs ?hf c' = {}"
    proof cases
      case 1
      with sep show ?thesis by simp
    next
      case 2
      with sep [of c] show ?thesis by (simp add: Int_commute)
    next
      case 3
      with dis n have "field_addrs (?h2 @ e2) c \<inter> field_addrs (?h2 @ e2) c' = {}"
        by blast
      then show ?thesis by (simp only: e)
    next
      case 4
      with n show ?thesis by simp
    qed
  qed
  from 1 2 3 4 5 6 7 show ?case
    by (intro exI [of _ ?cs] exI [of _ ?ext] conjI)
qed

subsection \<open>The copy is a tree, and the two constructors agree\<close>

lemma field_addrs_append_old:
  "read h c = Some (ObjectCell ps) \<Longrightarrow> field_addrs (h @ ext) c = field_addrs h c"
  by (simp add: field_addrs_def read_append_old)

lemma json_copy_represents:
  assumes v: "view h root = Some doc" and dk: "distinct (map fst doc)"
    and dc: "\<forall>c \<in> snd ` set doc. distinct (map fst c)"
  shows "\<exists>root' h' cs'. json_copy root h = Some (root', h')
           \<and> represents h' root' cs' doc \<and> map fst cs' = map fst doc"
proof -
  from v obtain cs where r: "read h root = Some (ObjectCell cs)"
    and vc: "view_collections h cs = Some doc"
    by (auto simp: view_def split: option.splits cell.splits)
  obtain cs' ext where
    all: "copy_collections cs h = Some (cs', h @ ext)
           \<and> view_collections (h @ ext) cs' = Some doc \<and> map fst cs' = map fst cs
           \<and> distinct (map snd cs')
           \<and> snd ` set cs' \<subseteq> {length h ..< length h + length ext}
           \<and> (\<forall>c \<in> snd ` set cs'. \<exists>ps. read (h @ ext) c = Some (ObjectCell ps)
                 \<and> distinct (map fst ps) \<and> distinct (map snd ps)
                 \<and> snd ` set ps \<subseteq> {length h ..< length h + length ext})
           \<and> (\<forall>c \<in> snd ` set cs'. \<forall>c' \<in> snd ` set cs'.
                 c \<noteq> c' \<longrightarrow> field_addrs (h @ ext) c \<inter> field_addrs (h @ ext) c' = {})"
  proof -
    from copy_collections_view [OF vc dc] show ?thesis by (elim exE) (rule that)
  qed
  note cc = all [THEN conjunct1]
  note vc' = all [THEN conjunct2, THEN conjunct1]
  note kc = all [THEN conjunct2, THEN conjunct2, THEN conjunct1]
  note ds = all [THEN conjunct2, THEN conjunct2, THEN conjunct2, THEN conjunct1]
  note rc = all [THEN conjunct2, THEN conjunct2, THEN conjunct2, THEN conjunct2, THEN conjunct1]
  note each = all [THEN conjunct2, THEN conjunct2, THEN conjunct2, THEN conjunct2,
    THEN conjunct2, THEN conjunct1]
  note dis = all [THEN conjunct2, THEN conjunct2, THEN conjunct2, THEN conjunct2,
    THEN conjunct2, THEN conjunct2]
  let ?h1 = "h @ ext"
  let ?root = "length ?h1"
  let ?h' = "?h1 @ [ObjectCell cs']"
  have jc: "json_copy root h = Some (?root, ?h')"
    using r cc by (simp add: json_copy_def)
  have keys: "map fst cs' = map fst doc"
    using kc view_collections_keys [OF vc] by simp
  have 1: "read ?h' ?root = Some (ObjectCell cs')" by (simp add: read_def nth_append)
  have 2: "view_collections ?h' cs' = Some doc" using vc' by (rule view_collections_append)
  have 3: "distinct (map fst cs')" using dk by (simp only: keys)
  have 5: "?root \<notin> snd ` set cs'" using rc by auto
  have old: "\<exists>qs. read ?h1 c = Some (ObjectCell qs) \<and> read ?h' c = Some (ObjectCell qs)
      \<and> distinct (map fst qs) \<and> distinct (map snd qs)
      \<and> field_addrs ?h' c = field_addrs ?h1 c" if "c \<in> snd ` set cs'" for c
  proof -
    from each that obtain qs where q: "read ?h1 c = Some (ObjectCell qs)"
      "distinct (map fst qs)" "distinct (map snd qs)" by blast
    from q(1) have "read ?h' c = Some (ObjectCell qs)" by (rule read_append_old)
    moreover from q(1) have "field_addrs ?h' c = field_addrs ?h1 c"
      by (rule field_addrs_append_old)
    ultimately show ?thesis using q by blast
  qed
  have 6: "\<forall>c \<in> snd ` set cs'. \<forall>ps. read ?h' c = Some (ObjectCell ps)
           \<longrightarrow> distinct (map fst ps) \<and> distinct (map snd ps)"
  proof (intro ballI allI impI)
    fix c ps
    assume "c \<in> snd ` set cs'" and rd: "read ?h' c = Some (ObjectCell ps)"
    from old [OF this(1)] obtain qs where "read ?h' c = Some (ObjectCell qs)"
      "distinct (map fst qs)" "distinct (map snd qs)" by blast
    with rd show "distinct (map fst ps) \<and> distinct (map snd ps)" by simp
  qed
  have 7: "\<forall>c \<in> snd ` set cs'. \<forall>c' \<in> snd ` set cs'.
           c \<noteq> c' \<longrightarrow> field_addrs ?h' c \<inter> field_addrs ?h' c' = {}"
  proof (intro ballI impI)
    fix c c'
    assume c: "c \<in> snd ` set cs'" and c': "c' \<in> snd ` set cs'" and n: "c \<noteq> c'"
    from old [OF c] have a: "field_addrs ?h' c = field_addrs ?h1 c" by blast
    from old [OF c'] have b: "field_addrs ?h' c' = field_addrs ?h1 c'" by blast
    from dis c c' n have "field_addrs ?h1 c \<inter> field_addrs ?h1 c' = {}" by blast
    then show "field_addrs ?h' c \<inter> field_addrs ?h' c' = {}" by (simp only: a b)
  qed
  have "represents ?h' ?root cs' doc"
    unfolding represents_def using 1 2 3 ds 5 6 7 by (intro conjI)
  with jc keys show ?thesis by blast
qed

lemma heap_keys_represents: "represents h root cs S \<Longrightarrow> heap_keys h root = map fst cs"
  by (simp add: heap_keys_def represents_def)

lemma view_represents: "represents h root cs S \<Longrightarrow> view h root = Some S"
  by (simp add: view_def represents_def)

lemma heap_constructor_resolve:
  assumes v: "view h document = Some doc" and dk: "distinct (map fst doc)"
    and dc: "\<forall>c \<in> snd ` set doc. distinct (map fst c)"
  shows "case heap_constructor document h of
           (Normal colls, h') \<Rightarrow> (\<exists>S. resolve doc = Normal S \<and> view h' colls = Some S)
         | (Throw e, h') \<Rightarrow> resolve doc = Throw e
         | (Beyond, h') \<Rightarrow> resolve doc = Beyond"
proof -
  from json_copy_represents [OF v dk dc] obtain root h1 cs where
    jc: "json_copy document h = Some (root, h1)" and rep1: "represents h1 root cs doc"
    and keys: "map fst cs = map fst doc" by blast
  let ?s = "init_collections (map fst doc) doc"
  from sim_init_collections [OF rep1, of "map fst doc"] obtain h2 where
    ic: "heap_init_collections (map fst doc) root h1 = Some h2"
    and rep2: "represents h2 root cs ?s" by blast
  have k1: "heap_keys h1 root = map fst doc"
    using heap_keys_represents [OF rep1] keys by simp
  have k2: "heap_keys h2 root = map fst doc"
    using heap_keys_represents [OF rep2] keys by simp
  have res: "resolve doc = link_collections (map fst doc) ?s"
    by (simp add: resolve_def Let_def keys_init_collections)
  have sim: "corresponds root cs (heap_link_collections (map fst doc) root h2)
      (link_collections (map fst doc) ?s)"
    using rep2 by (rule sim_link_collections)
  obtain r h3 where run: "heap_link_collections (map fst doc) root h2 = (r, h3)"
    by (cases "heap_link_collections (map fst doc) root h2")
  show ?thesis
  proof (cases r)
    case (Normal u)
    with sim run obtain S where "link_collections (map fst doc) ?s = Normal S"
      "represents h3 root cs S" by (auto simp: corresponds_def)
    then have "resolve doc = Normal S" "view h3 root = Some S"
      by (simp_all add: res view_represents)
    moreover have "heap_constructor document h = (Normal root, h3)"
      by (simp add: heap_constructor_def jc k1 ic k2 run Normal)
    ultimately show ?thesis by simp
  next
    case (Throw e)
    with sim run have "resolve doc = Throw e" by (simp add: corresponds_def res)
    moreover have "heap_constructor document h = (Throw e, h3)"
      by (simp add: heap_constructor_def jc k1 ic k2 run Throw)
    ultimately show ?thesis by simp
  next
    case Beyond
    with sim run have "resolve doc = Beyond" by (simp add: corresponds_def res)
    moreover have "heap_constructor document h = (Beyond, h3)"
      by (simp add: heap_constructor_def jc k1 ic k2 run Beyond)
    ultimately show ?thesis by simp
  qed
qed

text \<open>The example document: both models give the resolved schema of the example.\<close>

lemma profile_store_resolve:
  "resolve (schema profile_config) = Normal (r_collections profile_service)"
proof -
  have "distinct (map fst (schema profile_config))"
    and "\<forall>c \<in> snd ` set (schema profile_config). distinct (map fst c)"
    by (simp_all add: profile_config_def)
  from heap_constructor_resolve [OF profile_store_view this]
  show ?thesis using profile_store_view_after by (simp add: profile_store_run)
qed

end
